theory Spec2Isabelle
  imports Main "HOL-Library.Char_ord" "HOL-Library.List_Lexorder" "HOL-Library.Word"
begin

section \<open>The node model of \<^verbatim>\<open>system/lib/wasmfs/file.h\<close>\<close>

text \<open>
  Every \<^verbatim>\<open>File\<close> object lives in an arena: the list of all nodes that were ever
  created, a node's address being its index. A \<^verbatim>\<open>std::shared_ptr<File>\<close> is an
  optional address (\<open>None\<close> is \<^verbatim>\<open>nullptr\<close>), and so is the \<^verbatim>\<open>std::weak_ptr<File>\<close> of
  the parent link. A node is owned by the \<^verbatim>\<open>shared_ptr\<close>s that point to it: those
  stored in the entry maps of the directories, and those held outside the maps (an open
  file descriptor, a pointer or a handle of a caller). When the last of them lets go, the
  node is destroyed: it keeps its place in the arena, marked as destroyed, so that no
  address is used twice, and a weak pointer to it is expired.
\<close>

type_synonym addr = nat
type_synonym ptr = "addr option"
type_synonym tid = nat
type_synonym size_t = "32 word"

datatype FileKind = DataFileKind | DirectoryKind | SymlinkKind

text \<open>
  The members of \<^verbatim>\<open>File\<close>, with the one member \<^verbatim>\<open>Directory\<close> adds
  (\<open>entries\<close>, read only behind the kind check of \<open>getDir\<close>). The
  \<^verbatim>\<open>std::map<std::string, std::shared_ptr<File>>\<close> is the list of its pairs in key
  order, which is the order its iterator visits them in. The
  \<^verbatim>\<open>std::recursive_mutex\<close> is \<open>None\<close> when free, and otherwise its owner with
  the number of times the owner has locked it again since the first. The last two fields
  are what the control block of the \<^verbatim>\<open>shared_ptr\<close>s knows: \<open>owners\<close> is the
  number of \<^verbatim>\<open>shared_ptr\<close>s to the node that are held outside the entry maps, by
  others than the operation under way (the handle of the directory and the arguments of
  a call are its caller's); \<open>destroyed\<close> says that the destructor has run.
\<close>

record File =
  kind :: FileKind
  mode :: nat
  ctime :: nat
  mtime :: nat
  atime :: nat
  parent :: ptr
  backend :: "nat option"
  mutex :: "(tid \<times> nat) option"
  entries :: "(string \<times> ptr) list"
  owners :: nat
  destroyed :: bool

text \<open>What an operation does to the locks and the links, in program order.\<close>

datatype event =
    Lock addr
  | Unlock addr
  | WriteEntry addr string ptr
  | EraseEntry addr string
  | WriteParent addr ptr

record heap =
  files :: "File list"
  log :: "event list"

text \<open>
  A failed \<^verbatim>\<open>assert\<close> aborts; dereferencing a null \<^verbatim>\<open>shared_ptr\<close> is undefined
  behaviour, reported as \<open>NullDereference\<close>; \<open>InvalidPointer\<close> is a pointer to no
  live node; \<open>Blocked\<close> is a \<^verbatim>\<open>lock()\<close> on a mutex another thread owns: the call does
  not return until that thread releases it; \<open>UseAfterFree\<close> is the unlock of a mutex
  whose \<^verbatim>\<open>File\<close> has been destroyed. A failure is returned with the arena as it is
  at that point.
\<close>

datatype error = AssertionFailed | NullDereference | InvalidPointer | Blocked | UseAfterFree

type_synonym 'a result = "(error \<times> heap) + 'a"

text \<open>The next step of an operation runs on what the step before returns, if it returns.\<close>

definition bind :: "'a result \<Rightarrow> ('a \<Rightarrow> 'b result) \<Rightarrow> 'b result" where
  "bind m f = (case m of Inl failure \<Rightarrow> Inl failure | Inr x \<Rightarrow> f x)"

definition live :: "heap \<Rightarrow> addr \<Rightarrow> bool" where
  "live s a = (a < length (files s) \<and> \<not> destroyed (files s ! a))"

definition theFile :: "heap \<Rightarrow> addr \<Rightarrow> File" where
  "theFile s a = files s ! a"

definition deref :: "heap \<Rightarrow> ptr \<Rightarrow> addr result" where
  "deref s p =
     (case p of
        None \<Rightarrow> Inl (NullDereference, s)
      | Some a \<Rightarrow> if live s a then Inr a else Inl (InvalidPointer, s))"

definition store :: "addr \<Rightarrow> File \<Rightarrow> heap \<Rightarrow> heap" where
  "store a f s = s\<lparr>files := (files s)[a := f]\<rparr>"

definition emit :: "event \<Rightarrow> heap \<Rightarrow> heap" where
  "emit e s = s\<lparr>log := log s @ [e]\<rparr>"

subsection \<open>The entry map\<close>

text \<open>\<^verbatim>\<open>std::map::find\<close>: the value stored under a key, if any.\<close>

fun entries_find :: "string \<Rightarrow> (string \<times> ptr) list \<Rightarrow> ptr option" where
  "entries_find k [] = None"
| "entries_find k ((k', v) # es) = (if k = k' then Some v else entries_find k es)"

text \<open>
  \<^verbatim>\<open>entries[k] = v\<close>: the pair is replaced when the key is there, and put at its
  place in key order when not.
\<close>

fun entries_assign :: "string \<Rightarrow> ptr \<Rightarrow> (string \<times> ptr) list \<Rightarrow> (string \<times> ptr) list" where
  "entries_assign k v [] = [(k, v)]"
| "entries_assign k v ((k', v') # es) =
     (if k = k' then (k, v) # es
      else if k < k' then (k, v) # (k', v') # es
      else (k', v') # entries_assign k v es)"

text \<open>
  \<^verbatim>\<open>entries[k]\<close> as an rvalue: \<^verbatim>\<open>operator[]\<close> inserts a default-constructed (null)
  pointer under a key that is absent, and returns what is stored under the key.
\<close>

definition entries_subscript :: "string \<Rightarrow> (string \<times> ptr) list \<Rightarrow> (string \<times> ptr) list \<times> ptr" where
  "entries_subscript k es =
     (case entries_find k es of
        None \<Rightarrow> (entries_assign k None es, None)
      | Some v \<Rightarrow> (es, v))"

text \<open>\<^verbatim>\<open>entries.erase(k)\<close>.\<close>

fun entries_erase :: "string \<Rightarrow> (string \<times> ptr) list \<Rightarrow> (string \<times> ptr) list" where
  "entries_erase k [] = []"
| "entries_erase k ((k', v) # es) = (if k = k' then es else (k', v) # entries_erase k es)"

text \<open>The representation invariant of \<^verbatim>\<open>std::map\<close>: keys strictly ascending.\<close>

definition ordered :: "(string \<times> ptr) list \<Rightarrow> bool" where
  "ordered es = sorted_wrt (<) (map fst es)"

subsection \<open>Owners, and the destruction of a node\<close>

text \<open>
  The names under which a node, if it is a live directory, holds a strong reference to
  \<open>c\<close>, and all the pairs of a directory and a name that hold one.
\<close>

definition dir_names :: "File \<Rightarrow> addr \<Rightarrow> string list" where
  "dir_names f c =
     (if kind f = DirectoryKind \<and> \<not> destroyed f
      then map fst (filter (\<lambda>e. snd e = Some c) (entries f))
      else [])"

definition holders :: "File list \<Rightarrow> addr \<Rightarrow> (addr \<times> string) list" where
  "holders fs c = concat (map (\<lambda>d. map (Pair d) (dir_names (fs ! d) c)) [0..<length fs])"

text \<open>
  The pointers that the destructor of a node lets go of: those of its entry map, if it
  is a directory (\<^verbatim>\<open>File\<close> has no other owning member).
\<close>

definition released :: "File \<Rightarrow> addr list" where
  "released f = (if kind f = DirectoryKind then List.map_filter snd (entries f) else [])"

text \<open>
  The destructor of \<^verbatim>\<open>std::shared_ptr<File>\<close>, for a list of pointers that have just
  let go of their nodes, in turn: a node that no entry of a live directory and no owner
  outside the maps holds any more is destroyed, and the pointers of its own entry map,
  destroyed with it, let go of theirs. Every destruction takes a node from the live ones,
  which is why this ends.
\<close>

function release_all :: "addr list \<Rightarrow> heap \<Rightarrow> heap" where
  "release_all [] s = s"
| "release_all (a # as) s =
     (if live s a \<and> owners (theFile s a) = 0 \<and> holders (files s) a = []
      then release_all (released (theFile s a) @ as) (store a ((theFile s a)\<lparr>destroyed := True\<rparr>) s)
      else release_all as s)"
  by pat_completeness auto
termination
proof (relation "measures [\<lambda>(as, s). length (filter (\<lambda>f. \<not> destroyed f) (files s)), \<lambda>(as, s). length as]")
  show "wf (measures [\<lambda>(as, s). length (filter (\<lambda>f. \<not> destroyed f) (files s)), \<lambda>(as, s). length as])"
    by simp
next
  fix a :: addr and as :: "addr list" and s :: heap
  assume "live s a \<and> owners (theFile s a) = 0 \<and> holders (files s) a = []"
  then have a: "a < length (files s)" and alive: "\<not> destroyed (files s ! a)"
    by (simp_all add: live_def)
  have less: "length (filter (\<lambda>f. \<not> destroyed f) (xs[i := (xs ! i)\<lparr>destroyed := True\<rparr>]))
      < length (filter (\<lambda>f. \<not> destroyed f) xs)"
    if "i < length xs" and "\<not> destroyed (xs ! i)" for xs :: "File list" and i
    using that
  proof (induction xs arbitrary: i)
    case Nil
    then show ?case by simp
  next
    case (Cons x xs)
    show ?case
    proof (cases i)
      case 0
      with Cons.prems show ?thesis by simp
    next
      case (Suc j)
      with Cons.prems Cons.IH [of j] show ?thesis by simp
    qed
  qed
  from less [OF a alive]
  show "((released (theFile s a) @ as, store a ((theFile s a)\<lparr>destroyed := True\<rparr>) s), (a # as, s))
      \<in> measures [\<lambda>(as, s). length (filter (\<lambda>f. \<not> destroyed f) (files s)), \<lambda>(as, s). length as]"
    by (simp add: store_def theFile_def)
next
  fix a :: addr and as :: "addr list" and s :: heap
  show "((as, s), (a # as, s))
      \<in> measures [\<lambda>(as, s). length (filter (\<lambda>f. \<not> destroyed f) (files s)), \<lambda>(as, s). length as]"
    by simp
qed

text \<open>One \<^verbatim>\<open>shared_ptr\<close> lets go of what it points to (a null pointer of nothing).\<close>

definition reset :: "ptr \<Rightarrow> heap \<Rightarrow> heap" where
  "reset p s = (case p of None \<Rightarrow> s | Some a \<Rightarrow> release_all [a] s)"

subsection \<open>\<^verbatim>\<open>File\<close> and \<^verbatim>\<open>File::Handle\<close>\<close>

text \<open>
  \<^verbatim>\<open>ino_t getIno() { static_assert(sizeof(this) <= sizeof(ino_t)); return (ino_t)this; }\<close>
  The width of \<^verbatim>\<open>ino_t\<close> is the type parameter; the conversion of a pointer to an
  unsigned integer type at least as wide keeps the address.
\<close>

definition getIno :: "addr \<Rightarrow> 'i::len word" where
  "getIno this = of_nat this"

text \<open>
  \<^verbatim>\<open>size_t getSize()\<close> is virtual: \<^verbatim>\<open>Directory\<close> overrides it with the constant, the
  data files of a backend (none of them in this file) with their own, the parameter
  \<open>backendSize\<close>.
\<close>

definition File_getSize :: "(File \<Rightarrow> size_t) \<Rightarrow> File \<Rightarrow> size_t" where
  "File_getSize backendSize f = (if kind f = DirectoryKind then 4096 else backendSize f)"

text \<open>\<^verbatim>\<open>size_t Handle::getSize() { return file->getSize(); }\<close>\<close>

definition getSize :: "(File \<Rightarrow> size_t) \<Rightarrow> heap \<Rightarrow> addr \<Rightarrow> size_t result" where
  "getSize backendSize s h =
     bind (deref s (Some h)) (\<lambda>a. Inr (File_getSize backendSize (theFile s a)))"

text \<open>
  \<^verbatim>\<open>Handle locked() { return Handle(shared_from_this()); }\<close>, called through a
  \<^verbatim>\<open>shared_ptr\<close>: the constructor of the handle locks the recursive mutex of the file
  for the calling thread \<open>t\<close>. The handle is returned as the address of its
  \<^verbatim>\<open>file\<close>, which it owns until it is destroyed.
\<close>

definition locked :: "tid \<Rightarrow> ptr \<Rightarrow> heap \<Rightarrow> (addr \<times> heap) result" where
  "locked t p s =
     bind (deref s p) (\<lambda>a.
       case mutex (theFile s a) of
         None \<Rightarrow> Inr (a, emit (Lock a) (store a ((theFile s a)\<lparr>mutex := Some (t, 0)\<rparr>) s))
       | Some (owner, depth) \<Rightarrow>
           if owner = t
           then Inr (a, emit (Lock a) (store a ((theFile s a)\<lparr>mutex := Some (t, Suc depth)\<rparr>) s))
           else Inl (Blocked, s))"

text \<open>The destructor of the \<^verbatim>\<open>std::unique_lock\<close> of a handle: the mutex is unlocked once.\<close>

definition unlock :: "tid \<Rightarrow> addr \<Rightarrow> heap \<Rightarrow> heap" where
  "unlock t a s =
     emit (Unlock a)
       (case mutex (theFile s a) of
          None \<Rightarrow> s
        | Some (owner, depth) \<Rightarrow>
            store a ((theFile s a)\<lparr>mutex := (case depth of 0 \<Rightarrow> None | Suc k \<Rightarrow> Some (owner, k))\<rparr>) s)"

text \<open>
  The destructor of a handle, at the end of its scope. \<^verbatim>\<open>Handle\<close> declares
  \<^verbatim>\<open>lock\<close> before \<^verbatim>\<open>file\<close>, and members are destroyed in the reverse order: first
  \<^verbatim>\<open>file\<close> lets go of the node, which is destroyed, mutex and all, if the handle was
  its last owner; then \<^verbatim>\<open>lock\<close> unlocks the mutex, which by then may be gone.
\<close>

definition Handle_dtor :: "tid \<Rightarrow> addr \<Rightarrow> heap \<Rightarrow> heap result" where
  "Handle_dtor t a s =
     (let s' = reset (Some a) s
      in if live s' a then Inr (unlock t a s') else Inl (UseAfterFree, s'))"

text \<open>
  \<^verbatim>\<open>std::shared_ptr<File> getParent() { return file->parent.lock(); }\<close>: the weak pointer
  resolves to its target while the target is alive.
\<close>

definition getParent :: "heap \<Rightarrow> addr \<Rightarrow> ptr" where
  "getParent s h =
     (case parent (theFile s h) of
        None \<Rightarrow> None
      | Some d \<Rightarrow> if live s d then Some d else None)"

text \<open>\<^verbatim>\<open>void setParent(std::shared_ptr<File> parent) { file->parent = parent; }\<close>\<close>

definition setParent :: "addr \<Rightarrow> ptr \<Rightarrow> heap \<Rightarrow> heap" where
  "setParent h p s = emit (WriteParent h p) (store h ((theFile s h)\<lparr>parent := p\<rparr>) s)"

text \<open>Whether thread \<open>t\<close> holds the mutex of a node.\<close>

definition held :: "tid \<Rightarrow> heap \<Rightarrow> addr \<Rightarrow> bool" where
  "held t s a = (case mutex (theFile s a) of None \<Rightarrow> False | Some (owner, depth) \<Rightarrow> owner = t)"

text \<open>Whether \<^verbatim>\<open>lock()\<close> by thread \<open>t\<close> returns: the mutex is free or already its own.\<close>

definition lockable :: "tid \<Rightarrow> heap \<Rightarrow> addr \<Rightarrow> bool" where
  "lockable t s a = (case mutex (theFile s a) of None \<Rightarrow> True | Some (owner, depth) \<Rightarrow> owner = t)"

subsection \<open>\<^verbatim>\<open>Directory::Handle\<close>\<close>

text \<open>
  \<^verbatim>\<open>getDir() { return file->cast<Directory>(); }\<close>, and \<^verbatim>\<open>cast\<close> asserts the kind.
\<close>

definition getDir :: "heap \<Rightarrow> addr \<Rightarrow> addr result" where
  "getDir s h =
     bind (deref s (Some h)) (\<lambda>a.
       if kind (theFile s a) = DirectoryKind then Inr a else Inl (AssertionFailed, s))"

text \<open>
  \<^verbatim>\<open>getDir()->entries[pathName] = inserted;\<close> The assignment of a \<^verbatim>\<open>shared_ptr\<close>
  lets go of what the entry pointed to before, after the entry has its new value.
\<close>

definition assign_entry :: "addr \<Rightarrow> string \<Rightarrow> ptr \<Rightarrow> heap \<Rightarrow> heap" where
  "assign_entry d pathName p s =
     (let old = entries_find pathName (entries (theFile s d));
          s' = emit (WriteEntry d pathName p)
                 (store d ((theFile s d)\<lparr>entries := entries_assign pathName p (entries (theFile s d))\<rparr>) s)
      in case old of None \<Rightarrow> s' | Some q \<Rightarrow> reset q s')"

text \<open>
  \<^verbatim>\<open>
  void setEntry(std::string pathName, std::shared_ptr<File> inserted) {
    auto lockedInserted = inserted->locked();
    getDir()->entries[pathName] = inserted;
    assert(!lockedInserted.getParent());
    lockedInserted.setParent(file);
  }
  \<close>
  \<open>h\<close> is the \<^verbatim>\<open>file\<close> of the directory handle, \<open>t\<close> the calling thread.
\<close>

definition setEntry :: "tid \<Rightarrow> addr \<Rightarrow> string \<Rightarrow> ptr \<Rightarrow> heap \<Rightarrow> heap result" where
  "setEntry t h pathName inserted s =
     bind (locked t inserted s) (\<lambda>(lockedInserted, s1).
     bind (getDir s1 h) (\<lambda>d.
       let s2 = assign_entry d pathName inserted s1
       in if getParent s2 lockedInserted \<noteq> None then Inl (AssertionFailed, s2)
          else Handle_dtor t lockedInserted (setParent lockedInserted (Some h) s2)))"

text \<open>
  \<^verbatim>\<open>
  void unlinkEntry(std::string pathName) {
    auto unlinked = getDir()->entries[pathName]->locked();
    unlinked.setParent({});
    getDir()->entries.erase(pathName);
  }
  \<close>
  The pointer of the erased entry lets go of the child while the handle \<^verbatim>\<open>unlinked\<close>
  still owns it, so nothing is destroyed before the handle is.
\<close>

definition unlinkEntry :: "tid \<Rightarrow> addr \<Rightarrow> string \<Rightarrow> heap \<Rightarrow> heap result" where
  "unlinkEntry t h pathName s =
     bind (getDir s h) (\<lambda>d.
       let (es, child) = entries_subscript pathName (entries (theFile s d));
           s1 = store d ((theFile s d)\<lparr>entries := es\<rparr>) s
       in
     bind (locked t child s1) (\<lambda>(unlinked, s2).
       let s3 = setParent unlinked None s2 in
     bind (getDir s3 h) (\<lambda>d'.
       let s4 = emit (EraseEntry d' pathName)
                  (store d' ((theFile s3 d')\<lparr>entries := entries_erase pathName (entries (theFile s3 d'))\<rparr>) s3)
       in Handle_dtor t unlinked s4)))"

text \<open>
  \<^verbatim>\<open>
  std::string getName(std::shared_ptr<File> target) {
    for (const auto& [key, value] : getDir()->entries) {
      if (value == target) { return key; }
    }
    return "";
  }
  \<close>
\<close>

fun getName_loop :: "ptr \<Rightarrow> (string \<times> ptr) list \<Rightarrow> string" where
  "getName_loop target [] = ''''"
| "getName_loop target ((key, val) # es) =
     (if val = target then key else getName_loop target es)"

definition getName :: "heap \<Rightarrow> addr \<Rightarrow> ptr \<Rightarrow> string result" where
  "getName s h target =
     bind (getDir s h) (\<lambda>d. Inr (getName_loop target (entries (theFile s d))))"

text \<open>\<^verbatim>\<open>int getNumEntries() { return getDir()->entries.size(); }\<close>\<close>

definition getNumEntries :: "heap \<Rightarrow> addr \<Rightarrow> nat result" where
  "getNumEntries s h = bind (getDir s h) (\<lambda>d. Inr (length (entries (theFile s d))))"

subsection \<open>Sequences of directory operations\<close>

datatype dir_op =
    SetEntry tid addr string ptr
  | UnlinkEntry tid addr string

fun apply_op :: "dir_op \<Rightarrow> heap \<Rightarrow> heap result" where
  "apply_op (SetEntry t h pathName inserted) s = setEntry t h pathName inserted s"
| "apply_op (UnlinkEntry t h pathName) s = unlinkEntry t h pathName s"

fun apply_ops :: "dir_op list \<Rightarrow> heap \<Rightarrow> heap result" where
  "apply_ops [] s = Inr s"
| "apply_ops (x # xs) s = bind (apply_op x s) (apply_ops xs)"

subsection \<open>The link between a child and its directory\<close>

text \<open>
  What \<open>setEntry\<close> under a name that displaces no other child, and a successful
  \<open>unlinkEntry\<close>, leave in the arena: the entry map of the directory \<open>h\<close> and the
  parent of the child \<open>c\<close> change, and nothing else does.
\<close>

definition link_files :: "addr \<Rightarrow> string \<Rightarrow> addr \<Rightarrow> File list \<Rightarrow> File list" where
  "link_files h n c fs =
     map (\<lambda>a. let f = (if a = h then (fs ! a)\<lparr>entries := entries_assign n (Some c) (entries (fs ! a))\<rparr>
                         else fs ! a)
               in if a = c then f\<lparr>parent := Some h\<rparr> else f)
       [0..<length fs]"

definition unlink_files :: "addr \<Rightarrow> string \<Rightarrow> addr \<Rightarrow> File list \<Rightarrow> File list" where
  "unlink_files h n c fs =
     map (\<lambda>a. let f = (if a = c then (fs ! a)\<lparr>parent := None\<rparr> else fs ! a)
               in if a = h then f\<lparr>entries := entries_erase n (entries f)\<rparr> else f)
       [0..<length fs]"

text \<open>
  I1 as the specification words it, for every live node: its parent resolves exactly
  when one directory holds a strong reference to it.
\<close>

definition I1 :: "heap \<Rightarrow> bool" where
  "I1 s =
     list_all
       (\<lambda>c. live s c \<longrightarrow>
          (getParent s c \<noteq> None) = (length (remdups (map fst (holders (files s) c))) = 1))
       [0..<length (files s)]"

text \<open>
  The form of I1 that the operations keep: a node without a parent is held by no
  entry, and a node with a parent is held by one entry, of that parent.
\<close>

definition linked :: "heap \<Rightarrow> bool" where
  "linked s =
     list_all
       (\<lambda>c. live s c \<longrightarrow>
          (case getParent s c of
             None \<Rightarrow> holders (files s) c = []
           | Some d \<Rightarrow> map fst (holders (files s) c) = [d]))
       [0..<length (files s)]"

text \<open>
  The entry map of every live directory is a \<^verbatim>\<open>std::map\<close> (\<open>ordered\<close>), and every
  pointer it stores is a \<^verbatim>\<open>shared_ptr\<close> that owns a node: not null, and alive.
\<close>

definition owning :: "File list \<Rightarrow> ptr \<Rightarrow> bool" where
  "owning fs p = (case p of None \<Rightarrow> False | Some a \<Rightarrow> a < length fs \<and> \<not> destroyed (fs ! a))"

definition wellformed :: "heap \<Rightarrow> bool" where
  "wellformed s =
     list_all
       (\<lambda>f. kind f = DirectoryKind \<and> \<not> destroyed f \<longrightarrow>
          ordered (entries f) \<and> list_all (\<lambda>e. owning (files s) (snd e)) (entries f))
       (files s)"

text \<open>
  What every operation keeps of every node: its kind and its owners outside the maps; a
  node that is destroyed stays so, and a node with such an owner is not destroyed.
\<close>

definition kept :: "heap \<Rightarrow> heap \<Rightarrow> bool" where
  "kept s s' =
     (length (files s') = length (files s)
      \<and> (\<forall>a<length (files s).
            kind (files s' ! a) = kind (files s ! a)
            \<and> owners (files s' ! a) = owners (files s ! a)
            \<and> (destroyed (files s ! a) \<longrightarrow> destroyed (files s' ! a))
            \<and> (0 < owners (files s ! a) \<longrightarrow> destroyed (files s' ! a) = destroyed (files s ! a))))"

subsection \<open>Constructors and small arenas\<close>

text \<open>
  \<^verbatim>\<open>File(FileKind kind, mode_t mode, backend_t backend)\<close> with the default member
  initialisers, and the constructors of \<^verbatim>\<open>DataFile\<close> and \<^verbatim>\<open>Directory\<close>. A new node
  has one owner, the pointer of whoever created it.
\<close>

definition File_new :: "FileKind \<Rightarrow> nat \<Rightarrow> nat option \<Rightarrow> File" where
  "File_new k m b =
     \<lparr>kind = k, mode = m, ctime = 0, mtime = 0, atime = 0, parent = None, backend = b,
      mutex = None, entries = [], owners = 1, destroyed = False\<rparr>"

definition DataFile_new :: "nat \<Rightarrow> nat option \<Rightarrow> File" where
  "DataFile_new m b = File_new DataFileKind m b"

definition Directory_new :: "nat \<Rightarrow> nat option \<Rightarrow> File" where
  "Directory_new m b = File_new DirectoryKind m b"

text \<open>A directory at address 0 and two data files at 1 and 2, none of them linked.\<close>

definition heap0 :: heap where
  "heap0 = \<lparr>files = [Directory_new 0 None, DataFile_new 0 None, DataFile_new 0 None], log = []\<rparr>"

text \<open>
  The same arena with the file at 1 linked into the directory under the name a; the file
  has an owner outside the directory as well, an open descriptor say.
\<close>

definition heap1 :: heap where
  "heap1 =
     \<lparr>files = [(Directory_new 0 None)\<lparr>entries := [(''a'', Some 1)]\<rparr>,
               (DataFile_new 0 None)\<lparr>parent := Some 0\<rparr>,
               DataFile_new 0 None],
      log = []\<rparr>"

text \<open>What \<open>setEntry\<close> of the file at 2 under the same name makes of it.\<close>

definition heap2 :: heap where
  "heap2 =
     \<lparr>files = [(Directory_new 0 None)\<lparr>entries := [(''a'', Some 2)]\<rparr>,
               (DataFile_new 0 None)\<lparr>parent := Some 0\<rparr>,
               (DataFile_new 0 None)\<lparr>parent := Some 0\<rparr>],
      log = [Lock 2, WriteEntry 0 ''a'' (Some 2), WriteParent 2 (Some 0), Unlock 2]\<rparr>"

text \<open>
  A directory that holds the file at 1 under two names, the file at 2 under one, and
  the file at 3 under none.
\<close>

definition heap3 :: heap where
  "heap3 =
     \<lparr>files = [(Directory_new 0 None)\<lparr>entries := [(''a'', Some 2), (''b'', Some 1), (''c'', Some 1)]\<rparr>,
               (DataFile_new 0 None)\<lparr>parent := Some 0\<rparr>,
               (DataFile_new 0 None)\<lparr>parent := Some 0\<rparr>,
               DataFile_new 0 None],
      log = []\<rparr>"

text \<open>
  A tree: the directory at 0 holds the directory at 1 under the name a, which holds the
  file at 2 under the name x. Nothing but its entry owns the directory at 1.
\<close>

definition heap4 :: heap where
  "heap4 =
     \<lparr>files = [(Directory_new 0 None)\<lparr>entries := [(''a'', Some 1)]\<rparr>,
               (Directory_new 0 None)\<lparr>parent := Some 0, entries := [(''x'', Some 2)], owners := 0\<rparr>,
               (DataFile_new 0 None)\<lparr>parent := Some 1\<rparr>],
      log = []\<rparr>"

text \<open>
  What \<open>setEntry\<close> of the file at 2 under the name a makes of that tree: the directory
  at 1 is destroyed.
\<close>

definition heap5 :: heap where
  "heap5 =
     \<lparr>files = [(Directory_new 0 None)\<lparr>entries := [(''a'', Some 2)]\<rparr>,
               (Directory_new 0 None)\<lparr>parent := Some 0, entries := [(''x'', Some 2)], owners := 0,
                  destroyed := True\<rparr>,
               (DataFile_new 0 None)\<lparr>parent := Some 0\<rparr>],
      log = [Lock 2, WriteEntry 0 ''a'' (Some 2), WriteParent 2 (Some 0), Unlock 2]\<rparr>"

text \<open>
  The arena \<open>heap1\<close> at the point where \<open>setEntry\<close> of the file at 1 under the name
  b fails its assertion: the file is locked and the entry is written.
\<close>

definition heap6 :: heap where
  "heap6 =
     \<lparr>files = [(Directory_new 0 None)\<lparr>entries := [(''a'', Some 1), (''b'', Some 1)]\<rparr>,
               (DataFile_new 0 None)\<lparr>parent := Some 0, mutex := Some (7, 0)\<rparr>,
               DataFile_new 0 None],
      log = [Lock 1, WriteEntry 0 ''b'' (Some 1)]\<rparr>"

text \<open>The mutex of a node after one more \<^verbatim>\<open>lock()\<close> by thread \<open>t\<close>.\<close>

definition relock :: "tid \<Rightarrow> (tid \<times> nat) option \<Rightarrow> (tid \<times> nat) option" where
  "relock t m = (case m of None \<Rightarrow> Some (t, 0) | Some (owner, depth) \<Rightarrow> Some (t, Suc depth))"

section \<open>Path resolution\<close>

text \<open>
  \<^verbatim>\<open>file.h\<close> declares \<^verbatim>\<open>splitPath\<close>, \<^verbatim>\<open>getDir\<close> and \<^verbatim>\<open>getParsedPath\<close>; their bodies
  are in no source file at hand, and the test \<^verbatim>\<open>open("", O_RDONLY)\<close> only observes
  them. The three definitions below follow the specification (4.2 and 6). The walk
  reads the arena and takes one directory lock at a time, which leaves no trace in what
  it returns; the locks are left out.
\<close>

datatype errno = EEXIST | ENOTDIR | EISDIR | ENOENT | EINVAL | EBADF

text \<open>
  Modelled from the spec: the body of \<^verbatim>\<open>splitPath\<close> is missing. The pathname is split
  at the separator into its components in order; a leading separator gives the first
  element \<^verbatim>\<open>"/"\<close>; separators are collapsed, so that the empty components of doubled
  and trailing separators are dropped.
\<close>

fun components :: "string \<Rightarrow> string \<Rightarrow> string list" where
  "components acc [] = (if acc = [] then [] else [acc])"
| "components acc (c # cs) =
     (if c = CHR ''/''
      then (if acc = [] then components [] cs else acc # components [] cs)
      else components (acc @ [c]) cs)"

definition splitPath :: "string \<Rightarrow> string list" where
  "splitPath pathname =
     (case pathname of
        [] \<Rightarrow> []
      | c # cs \<Rightarrow> (if c = CHR ''/'' then [''/''] else []) @ components [] pathname)"

text \<open>
  Modelled from the spec: the body of \<^verbatim>\<open>getDir\<close> (\<open>resolve_directory\<close> in the
  specification) is missing. Each component is looked up in the current directory: an
  absent one is "no such entry", the forbidden ancestor "invalid argument", a node that
  is not a directory "not a directory".
\<close>

fun resolve_directory :: "heap \<Rightarrow> ptr \<Rightarrow> addr \<Rightarrow> string list \<Rightarrow> errno + addr" where
  "resolve_directory s forbidden_ancestor cur [] = Inr cur"
| "resolve_directory s forbidden_ancestor cur (name # names) =
     (case entries_find name (entries (theFile s cur)) of
        None \<Rightarrow> Inl ENOENT
      | Some None \<Rightarrow> Inl ENOENT
      | Some (Some a) \<Rightarrow>
          if Some a = forbidden_ancestor then Inl EINVAL
          else if \<not> live s a \<or> kind (theFile s a) \<noteq> DirectoryKind then Inl ENOTDIR
          else resolve_directory s forbidden_ancestor a names)"

text \<open>
  Modelled from the spec: the body of \<^verbatim>\<open>getParsedPath\<close> (\<open>resolve_parent_and_child\<close>
  in the specification) is missing. A wholly empty pathname is "invalid argument";
  otherwise all components but the last resolve to the parent, from the root for an
  absolute path and from the working directory for a relative one, and a last component
  that is absent gives a missing child, not an error. The root alone has no parent.
\<close>

definition resolve_parent_and_child ::
    "heap \<Rightarrow> addr \<Rightarrow> addr \<Rightarrow> ptr \<Rightarrow> string \<Rightarrow> errno + ptr \<times> ptr" where
  "resolve_parent_and_child s root cwd forbidden_ancestor pathname =
     (let parts = splitPath pathname in
      if parts = [] then Inl EINVAL
      else
        let start = (if hd parts = ''/'' then root else cwd);
            names = (if hd parts = ''/'' then tl parts else parts)
        in if names = [] then Inr (None, Some start)
           else
             case resolve_directory s forbidden_ancestor start (butlast names) of
               Inl e \<Rightarrow> Inl e
             | Inr dir \<Rightarrow>
                 Inr (Some dir,
                      case entries_find (last names) (entries (theFile s dir)) of
                        None \<Rightarrow> None
                      | Some child \<Rightarrow> child))"

section \<open>The sync-to-async bridge (\<^verbatim>\<open>SyncToAsync\<close>)\<close>

text \<open>
  The bridge is a mutex, a condition variable and four variables that are read and
  written under the mutex only. Its threads are the worker and one thread per call of
  \<^verbatim>\<open>invoke\<close>; the model is the interleaving of their steps. A step is what a thread
  does between two points where it can block: taking the mutex, and waiting on the
  condition variable. The worker holds the mutex (\<^verbatim>\<open>workerLock\<close>) at all times but inside
  \<^verbatim>\<open>condition.wait\<close>, so the work it runs and the resume callback run under the mutex.
\<close>

datatype State = Uninitialized | Waiting | WorkAvailable | ShouldExit

datatype thread = Worker | Invoker nat

text \<open>
  Where the worker is: about to run \<^verbatim>\<open>threadIter\<close> (scheduled by
  \<^verbatim>\<open>emscripten_async_call\<close>); inside \<^verbatim>\<open>condition.wait\<close>, asleep or notified and in need
  of the mutex; running the work of an invoker, which has not called the resume callback
  yet; gone through \<^verbatim>\<open>pthread_exit\<close>.
\<close>

datatype worker_pc = W_Iter | W_Asleep | W_Woken | W_Running nat | W_Exited

text \<open>
  Where a call of \<^verbatim>\<open>invoke\<close> is: not begun (it needs the mutex); holding the mutex,
  before the test of \<^verbatim>\<open>state\<close>; in the first \<^verbatim>\<open>condition.wait\<close>, asleep or notified;
  holding the mutex with the work sent, before the test of \<^verbatim>\<open>workCount > workID\<close>; in
  the last \<^verbatim>\<open>condition.wait\<close>, asleep or notified; returned. The last three carry the
  local variable \<^verbatim>\<open>workID\<close>.
\<close>

datatype invoker_pc =
    I_Idle
  | I_Locked
  | I_WaitReady
  | I_WokenReady
  | I_Sent "64 word"
  | I_WaitDone "64 word"
  | I_WokenDone "64 word"
  | I_Done

text \<open>What the worker has done, the latest first: begun a work item, seen it call resume.\<close>

datatype wevent = Started nat | Resumed nat

text \<open>
  The members \<^verbatim>\<open>state\<close>, \<^verbatim>\<open>workCount\<close> (a \<^verbatim>\<open>uint64_t\<close>) and \<^verbatim>\<open>work\<close> (the work is
  named by the invoker that sent it); the thread that holds \<^verbatim>\<open>mutex\<close>; the threads; the
  history; and whether an assertion has failed.
\<close>

record bridge =
  state :: State
  workCount :: "64 word"
  work :: "nat option"
  holder :: "thread option"
  worker :: worker_pc
  invokers :: "invoker_pc list"
  history :: "wevent list"
  failed :: bool

text \<open>\<^verbatim>\<open>condition.notify_all()\<close>: every thread asleep in a wait is woken.\<close>

definition wake_worker :: "worker_pc \<Rightarrow> worker_pc" where
  "wake_worker pc = (case pc of W_Asleep \<Rightarrow> W_Woken | _ \<Rightarrow> pc)"

definition wake_invoker :: "invoker_pc \<Rightarrow> invoker_pc" where
  "wake_invoker pc =
     (case pc of I_WaitReady \<Rightarrow> I_WokenReady | I_WaitDone workID \<Rightarrow> I_WokenDone workID | _ \<Rightarrow> pc)"

definition notify_all :: "bridge \<Rightarrow> bridge" where
  "notify_all s = s\<lparr>worker := wake_worker (worker s), invokers := map wake_invoker (invokers s)\<rparr>"

text \<open>A failed \<^verbatim>\<open>assert\<close>: the program stops.\<close>

definition abort :: "bridge \<Rightarrow> bridge" where
  "abort s = s\<lparr>failed := True\<rparr>"

text \<open>
  The resume callback of the work of invoker \<open>i\<close>:
  \<^verbatim>\<open>
  parent->workCount++;
  assert(parent->workCount && "workCount overflowed!");
  parent->condition.notify_all();
  emscripten_async_call(threadIter, arg, 0);
  \<close>
\<close>

definition resume :: "nat \<Rightarrow> bridge \<Rightarrow> bridge" where
  "resume i s =
     (let s1 = s\<lparr>workCount := workCount s + 1\<rparr> in
      if workCount s1 = 0 then abort s1
      else notify_all (s1\<lparr>history := Resumed i # history s1, worker := W_Iter\<rparr>))"

text \<open>
  The steps of the worker.
  \<^verbatim>\<open>
  static void threadIter(void* arg) {
    assert(parent->workerLock.owns_lock());
    parent->state = Waiting;
    parent->condition.wait(parent->workerLock, [&]() {
      return parent->state == WorkAvailable || parent->state == ShouldExit; });
    if (parent->state == ShouldExit) { pthread_exit(0); }
    assert(parent->state == WorkAvailable);
    auto work = parent->work;
    parent->resume = [parent, arg]() { ... };
    work(&parent->resume);
  }
  \<close>
  From \<open>W_Iter\<close> the state is set, the predicate of the wait is false and the mutex is
  released. A woken worker needs the mutex; with it, it tests the predicate, and goes back
  to sleep, exits, or begins the work in the slot (an empty \<^verbatim>\<open>std::function\<close> cannot be
  called). The work calls the resume callback once: the step from \<open>W_Running\<close>.
\<close>

definition threadIter :: "bridge \<Rightarrow> bridge option" where
  "threadIter s =
     (case worker s of
        W_Iter \<Rightarrow>
          if holder s \<noteq> Some Worker then Some (abort s)
          else Some (s\<lparr>state := Waiting, holder := None, worker := W_Asleep\<rparr>)
      | W_Asleep \<Rightarrow> None
      | W_Woken \<Rightarrow>
          if holder s \<noteq> None then None
          else if state s = ShouldExit then Some (s\<lparr>holder := Some Worker, worker := W_Exited\<rparr>)
          else if state s = WorkAvailable then
            (case work s of
               None \<Rightarrow> Some (abort (s\<lparr>holder := Some Worker\<rparr>))
             | Some i \<Rightarrow>
                 Some (s\<lparr>holder := Some Worker, worker := W_Running i,
                          history := Started i # history s\<rparr>))
          else Some (s\<lparr>worker := W_Asleep\<rparr>)
      | W_Running i \<Rightarrow>
          if holder s \<noteq> Some Worker then Some (abort s) else Some (resume i s)
      | W_Exited \<Rightarrow> None)"

text \<open>
  The steps of the call of \<^verbatim>\<open>invoke\<close> by invoker \<open>i\<close>.
  \<^verbatim>\<open>
  void SyncToAsync::invoke(std::function<void(Callback)> newWork) {
    std::unique_lock<std::mutex> lock(mutex);
    if (state != Waiting) {
      condition.wait(lock, [&]() { return state == Waiting; });
    }
    assert(state == Waiting);
    uint64_t workID = workCount;
    work = newWork;
    state = WorkAvailable;
    condition.notify_all();
    condition.wait(lock, [&]() { return workCount > workID; });
  }
  \<close>
  \<open>None\<close> is a thread that cannot move: it needs the mutex and another thread holds
  it, or it is asleep in a wait, or it has returned.
\<close>

definition invoke :: "nat \<Rightarrow> bridge \<Rightarrow> bridge option" where
  "invoke i s =
     (if length (invokers s) \<le> i then None
      else case invokers s ! i of
        I_Idle \<Rightarrow>
          if holder s \<noteq> None then None
          else Some (s\<lparr>holder := Some (Invoker i), invokers := (invokers s)[i := I_Locked]\<rparr>)
      | I_Locked \<Rightarrow>
          if state s \<noteq> Waiting
          then Some (s\<lparr>holder := None, invokers := (invokers s)[i := I_WaitReady]\<rparr>)
          else Some (notify_all
                 (s\<lparr>work := Some i, state := WorkAvailable,
                    invokers := (invokers s)[i := I_Sent (workCount s)]\<rparr>))
      | I_WaitReady \<Rightarrow> None
      | I_WokenReady \<Rightarrow>
          if holder s \<noteq> None then None
          else Some (s\<lparr>holder := Some (Invoker i), invokers := (invokers s)[i := I_Locked]\<rparr>)
      | I_Sent workID \<Rightarrow>
          if workID < workCount s
          then Some (s\<lparr>holder := None, invokers := (invokers s)[i := I_Done]\<rparr>)
          else Some (s\<lparr>holder := None, invokers := (invokers s)[i := I_WaitDone workID]\<rparr>)
      | I_WaitDone workID \<Rightarrow> None
      | I_WokenDone workID \<Rightarrow>
          if holder s \<noteq> None then None
          else Some (s\<lparr>holder := Some (Invoker i), invokers := (invokers s)[i := I_Sent workID]\<rparr>)
      | I_Done \<Rightarrow> None)"

text \<open>A step of a thread; nothing moves once an assertion has failed.\<close>

definition step :: "thread \<Rightarrow> bridge \<Rightarrow> bridge option" where
  "step t s =
     (if failed s then None
      else case t of Worker \<Rightarrow> threadIter s | Invoker i \<Rightarrow> invoke i s)"

text \<open>A spurious wakeup, which \<^verbatim>\<open>std::condition_variable\<close> allows: a sleeper wakes unnotified.\<close>

definition spurious :: "thread \<Rightarrow> bridge \<Rightarrow> bridge option" where
  "spurious t s =
     (if failed s then None
      else case t of
        Worker \<Rightarrow> if worker s = W_Asleep then Some (s\<lparr>worker := W_Woken\<rparr>) else None
      | Invoker i \<Rightarrow>
          if i < length (invokers s) \<and> wake_invoker (invokers s ! i) \<noteq> invokers s ! i
          then Some (s\<lparr>invokers := (invokers s)[i := wake_invoker (invokers s ! i)]\<rparr>)
          else None)"

text \<open>An execution is a schedule: which thread moves next, or wakes spuriously.\<close>

datatype label = Step thread | Spurious thread

fun exec :: "label \<Rightarrow> bridge \<Rightarrow> bridge option" where
  "exec (Step t) s = step t s"
| "exec (Spurious t) s = spurious t s"

fun run :: "label list \<Rightarrow> bridge \<Rightarrow> bridge option" where
  "run [] s = Some s"
| "run (l # ls) s = (case exec l s of None \<Rightarrow> None | Some s' \<Rightarrow> run ls s')"

fun is_step :: "label \<Rightarrow> bool" where
  "is_step (Step t) = True"
| "is_step (Spurious t) = False"

text \<open>
  The bridge when its constructor returns, with \<open>K\<close> threads about to call
  \<^verbatim>\<open>invoke\<close>: the constructor waits for \<^verbatim>\<open>state == Waiting\<close>, which the worker sets in
  its first \<^verbatim>\<open>threadIter\<close> before it sleeps in the wait, and then unlocks the mutex.
\<close>

definition init :: "nat \<Rightarrow> bridge" where
  "init K =
     \<lparr>state = Waiting, workCount = 0, work = None, holder = None, worker = W_Asleep,
      invokers = replicate K I_Idle, history = [], failed = False\<rparr>"

text \<open>
  A history (latest first) in which every work item that was begun has called resume
  before the next one was begun, and one in which the latest may still be running.
\<close>

fun paired :: "wevent list \<Rightarrow> bool" where
  "paired [] = True"
| "paired (Resumed i # Started j # h) = (i = j \<and> paired h)"
| "paired h = False"

fun one_at_a_time :: "wevent list \<Rightarrow> bool" where
  "one_at_a_time (Started i # h) = paired h"
| "one_at_a_time h = paired h"


subsection \<open>A measure of the steps that remain\<close>

text \<open>
  Every step of a thread makes \<open>potential\<close> smaller. A thread that wakes costs two
  steps (take the mutex, test the predicate); a \<^verbatim>\<open>notify_all\<close> wakes at most all
  threads, and there are two of them for each work item, paid for by \<open>C\<close>.
\<close>

definition invoker_weight :: "nat \<Rightarrow> invoker_pc \<Rightarrow> nat" where
  "invoker_weight C pc =
     (case pc of
        I_Idle \<Rightarrow> 2 * C + 2
      | I_WokenReady \<Rightarrow> 2 * C + 2
      | I_Locked \<Rightarrow> 2 * C + 1
      | I_WaitReady \<Rightarrow> 2 * C
      | I_Sent workID \<Rightarrow> 1
      | I_WokenDone workID \<Rightarrow> 2
      | I_WaitDone workID \<Rightarrow> 0
      | I_Done \<Rightarrow> 0)"

definition worker_weight :: "nat \<Rightarrow> State \<Rightarrow> worker_pc \<Rightarrow> nat" where
  "worker_weight C st pc =
     (case pc of
        W_Running i \<Rightarrow> C + 1
      | W_Iter \<Rightarrow> 1
      | W_Woken \<Rightarrow> (if st = WorkAvailable then C else 0) + 2
      | W_Asleep \<Rightarrow> (if st = WorkAvailable then C else 0)
      | W_Exited \<Rightarrow> 0)"

definition potential :: "bridge \<Rightarrow> nat" where
  "potential s =
     (if failed s then 0
      else let C = 2 * length (invokers s) + 4 in
        1 + worker_weight C (state s) (worker s) + sum_list (map (invoker_weight C) (invokers s)))"

subsection \<open>The invariant of the bridge\<close>

text \<open>The work of invoker \<open>i\<close> is in the slot, and the worker has not seen its resume.\<close>

definition cur :: "bridge \<Rightarrow> nat \<Rightarrow> bool" where
  "cur s i = (state s = WorkAvailable \<and> work s = Some i \<and> (worker s = W_Woken \<or> worker s = W_Running i))"

definition unsent :: "invoker_pc \<Rightarrow> nat" where
  "unsent pc =
     (case pc of I_Idle \<Rightarrow> 1 | I_Locked \<Rightarrow> 1 | I_WaitReady \<Rightarrow> 1 | I_WokenReady \<Rightarrow> 1 | _ \<Rightarrow> 0)"

definition outstanding :: "State \<Rightarrow> worker_pc \<Rightarrow> nat" where
  "outstanding st pc =
     (case pc of
        W_Running i \<Rightarrow> 1
      | W_Iter \<Rightarrow> 0
      | _ \<Rightarrow> if st = WorkAvailable then 1 else 0)"

definition holds_lock_w :: "worker_pc \<Rightarrow> bool" where
  "holds_lock_w pc = (case pc of W_Iter \<Rightarrow> True | W_Running i \<Rightarrow> True | _ \<Rightarrow> False)"

definition holds_lock_i :: "invoker_pc \<Rightarrow> bool" where
  "holds_lock_i pc = (case pc of I_Locked \<Rightarrow> True | I_Sent workID \<Rightarrow> True | _ \<Rightarrow> False)"

definition inv_basic :: "bridge \<Rightarrow> bool" where
  "inv_basic s =
     (\<not> failed s
      \<and> length (invokers s) < 2 ^ 64
      \<and> (state s = Waiting \<or> state s = WorkAvailable)
      \<and> worker s \<noteq> W_Exited
      \<and> (worker s = W_Asleep \<longrightarrow> state s = Waiting)
      \<and> (state s = WorkAvailable \<longrightarrow> work s \<noteq> None))"

text \<open>Mutual exclusion: the thread that holds the mutex is the one whose place says so.\<close>

definition inv_lock :: "bridge \<Rightarrow> bool" where
  "inv_lock s =
     (holds_lock_w (worker s) = (holder s = Some Worker)
      \<and> (\<forall>i. holder s = Some (Invoker i) \<longrightarrow> i < length (invokers s))
      \<and> (\<forall>i<length (invokers s). holds_lock_i (invokers s ! i) = (holder s = Some (Invoker i))))"

text \<open>No wakeup is lost: whoever sleeps will be notified.\<close>

definition inv_ready :: "bridge \<Rightarrow> bool" where
  "inv_ready s =
     (\<forall>i<length (invokers s). invokers s ! i = I_WaitReady \<longrightarrow>
        state s = WorkAvailable \<and> (worker s = W_Woken \<or> (\<exists>j. worker s = W_Running j)))"

definition inv_waitdone :: "bridge \<Rightarrow> bool" where
  "inv_waitdone s =
     (\<forall>i<length (invokers s). \<forall>workID. invokers s ! i = I_WaitDone workID \<longrightarrow>
        cur s i \<and> workCount s = workID)"

definition inv_sent :: "bridge \<Rightarrow> bool" where
  "inv_sent s =
     (\<forall>i<length (invokers s). \<forall>workID.
        invokers s ! i = I_Sent workID \<or> invokers s ! i = I_WokenDone workID \<longrightarrow>
        cur s i \<and> workCount s = workID
        \<or> Resumed i \<in> set (history s) \<and> workID < workCount s)"

definition inv_done :: "bridge \<Rightarrow> bool" where
  "inv_done s = (\<forall>i<length (invokers s). invokers s ! i = I_Done \<longrightarrow> Resumed i \<in> set (history s))"

definition inv_hist :: "bridge \<Rightarrow> bool" where
  "inv_hist s =
     ((\<forall>i. worker s = W_Running i \<longrightarrow> (\<exists>h. history s = Started i # h \<and> paired h))
      \<and> ((\<forall>i. worker s \<noteq> W_Running i) \<longrightarrow> paired (history s)))"

text \<open>The counter counts the work items done; it cannot pass the number of invokers.\<close>

definition inv_count :: "bridge \<Rightarrow> bool" where
  "inv_count s =
     (unat (workCount s) + sum_list (map unsent (invokers s)) + outstanding (state s) (worker s)
        = length (invokers s))"

definition bridge_inv :: "bridge \<Rightarrow> bool" where
  "bridge_inv s =
     (inv_basic s \<and> inv_lock s \<and> inv_ready s \<and> inv_waitdone s \<and> inv_sent s \<and> inv_done s
      \<and> inv_hist s \<and> inv_count s)"

subsection \<open>An execution with two invokers\<close>

text \<open>
  Invoker 0 sends its work; invoker 1 finds the worker busy and waits; the worker runs
  the work, resumes and waits again; invoker 1 sends its work before invoker 0 has seen
  that its own is done.
\<close>

definition sched2 :: "label list" where
  "sched2 =
     [Step (Invoker 0), Step (Invoker 0), Step (Invoker 0),
      Step (Invoker 1), Step (Invoker 1),
      Step Worker, Step Worker, Step Worker,
      Step (Invoker 1), Step (Invoker 1), Step (Invoker 1),
      Step (Invoker 0), Step (Invoker 0),
      Step Worker, Step Worker, Step Worker,
      Step (Invoker 1), Step (Invoker 1)]"

definition locked2 :: bridge where
  "locked2 =
     \<lparr>state = Waiting, workCount = 0, work = None, holder = Some (Invoker 0),
      worker = W_Asleep, invokers = [I_Locked, I_Idle], history = [], failed = False\<rparr>"

definition sent2 :: bridge where
  "sent2 =
     \<lparr>state = WorkAvailable, workCount = 0, work = Some 0, holder = Some (Invoker 0),
      worker = W_Woken, invokers = [I_Sent 0, I_Idle], history = [], failed = False\<rparr>"



definition final2 :: bridge where
  "final2 =
     \<lparr>state = Waiting, workCount = 2, work = Some 1, holder = None,
      worker = W_Asleep, invokers = [I_Done, I_Done],
      history = [Resumed 1, Started 1, Resumed 0, Started 0],
      failed = False\<rparr>"

section \<open>Properties of the node model\<close>

subsection \<open>The primitives\<close>

lemma bind_Inr [simp]: "bind (Inr x) f = f x"
  by (simp add: bind_def)
lemma bind_Inl [simp]: "bind (Inl e) f = Inl e"
  by (simp add: bind_def)
lemma bind_eq_Inr: "(bind m f = Inr y) = (\<exists>x. m = Inr x \<and> f x = Inr y)"
  by (cases m) simp_all

lemma files_store [simp]: "files (store a f s) = (files s)[a := f]"
  by (simp add: store_def)
lemma log_store [simp]: "log (store a f s) = log s"
  by (simp add: store_def)
lemma files_emit [simp]: "files (emit e s) = files s"
  by (simp add: emit_def)
lemma log_emit [simp]: "log (emit e s) = log s @ [e]"
  by (simp add: emit_def)
lemma live_store [simp]:
  "destroyed f = destroyed (theFile s a) \<Longrightarrow> live (store a f s) b = live s b"
  by (cases "b = a") (auto simp: live_def theFile_def)
lemma live_emit [simp]: "live (emit e s) b = live s b"
  by (simp add: live_def)
lemma theFile_emit [simp]: "theFile (emit e s) a = theFile s a"
  by (simp add: theFile_def)
lemma theFile_store [simp]:
  "live s a \<Longrightarrow> theFile (store a f s) b = (if b = a then f else theFile s b)"
  by (simp add: theFile_def live_def)
lemma deref_Some [simp]: "deref s (Some a) = (if live s a then Inr a else Inl (InvalidPointer, s))"
  by (simp add: deref_def)
lemma deref_None [simp]: "deref s None = Inl (NullDereference, s)"
  by (simp add: deref_def)

lemma find_assign [simp]:
  "entries_find k' (entries_assign k v es) = (if k' = k then Some v else entries_find k' es)"
  by (induction es) auto

lemma locked_eq_Inr:
  "(locked t p s = Inr (a, s1)) =
     (p = Some a \<and> live s a \<and> lockable t s a \<and>
      s1 = emit (Lock a) (store a ((theFile s a)\<lparr>mutex := relock t (mutex (theFile s a))\<rparr>) s))"
  by (cases p) (auto simp: locked_def lockable_def relock_def bind_eq_Inr split: option.splits if_splits)

lemma locked_None [simp]: "locked t None s = Inl (NullDereference, s)"
  by (simp add: locked_def)

lemma locked_blocked:
  "live s a \<Longrightarrow> \<not> lockable t s a \<Longrightarrow> locked t (Some a) s = Inl (Blocked, s)"
  by (auto simp: locked_def lockable_def split: option.splits)

lemma held_blocks:
  "live s a \<Longrightarrow> held t s a \<Longrightarrow> t' \<noteq> t \<Longrightarrow> locked t' (Some a) s = Inl (Blocked, s)"
  by (auto simp: locked_def held_def split: option.splits)

lemma held_relock [simp]: "(case relock t m of None \<Rightarrow> False | Some (owner, depth) \<Rightarrow> owner = t)"
  by (simp add: relock_def split: option.splits)

lemma unlock_relock:
  assumes "live s a" and "lockable t s a"
    and "theFile s1 a = f\<lparr>mutex := relock t (mutex (theFile s a))\<rparr>" and "live s1 a"
  shows "files (unlock t a s1) = (files s1)[a := f\<lparr>mutex := mutex (theFile s a)\<rparr>]"
    and "log (unlock t a s1) = log s1 @ [Unlock a]"
  using assms
  by (auto simp: unlock_def relock_def lockable_def split: option.splits nat.splits)

lemma release_all_destroy:
  "live s a \<and> owners (theFile s a) = 0 \<and> holders (files s) a = [] \<Longrightarrow>
   release_all (a # as) s
     = release_all (released (theFile s a) @ as) (store a ((theFile s a)\<lparr>destroyed := True\<rparr>) s)"
  by simp

lemma release_all_skip:
  "\<not> (live s a \<and> owners (theFile s a) = 0 \<and> holders (files s) a = []) \<Longrightarrow>
   release_all (a # as) s = release_all as s"
  by auto

declare release_all.simps(2) [simp del]

lemma log_release_all [simp]: "log (release_all xs s) = log s"
proof (induction xs s rule: release_all.induct)
  case (1 s)
  then show ?case by simp
next
  case (2 x xs s)
  show ?case
  proof (cases "live s x \<and> owners (theFile s x) = 0 \<and> holders (files s) x = []")
    case True
    with 2(1) [OF True] show ?thesis by (simp add: release_all_destroy)
  next
    case False
    with 2(2) [OF False] show ?thesis by (simp add: release_all_skip)
  qed
qed

lemma length_release_all [simp]: "length (files (release_all xs s)) = length (files s)"
proof (induction xs s rule: release_all.induct)
  case (1 s)
  then show ?case by simp
next
  case (2 x xs s)
  show ?case
  proof (cases "live s x \<and> owners (theFile s x) = 0 \<and> holders (files s) x = []")
    case True
    with 2(1) [OF True] show ?thesis by (simp add: release_all_destroy)
  next
    case False
    with 2(2) [OF False] show ?thesis by (simp add: release_all_skip)
  qed
qed

lemma release_all_same:
  "(files (release_all xs s) ! a)\<lparr>destroyed := d\<rparr> = (files s ! a)\<lparr>destroyed := d\<rparr>"
proof (induction xs s rule: release_all.induct)
  case (1 s)
  then show ?case by simp
next
  case (2 x xs s)
  show ?case
  proof (cases "live s x \<and> owners (theFile s x) = 0 \<and> holders (files s) x = []")
    case True
    then have x: "x < length (files s)" by (simp add: live_def)
    have "(files (store x ((theFile s x)\<lparr>destroyed := True\<rparr>) s) ! a)\<lparr>destroyed := d\<rparr>
        = (files s ! a)\<lparr>destroyed := d\<rparr>"
      using x by (cases "a = x") (simp_all add: theFile_def)
    with 2(1) [OF True] show ?thesis by (simp add: release_all_destroy [OF True])
  next
    case False
    with 2(2) [OF False] show ?thesis by (simp add: release_all_skip)
  qed
qed

lemma release_all_fields:
  "kind (files (release_all xs s) ! a) = kind (files s ! a)"
  "parent (files (release_all xs s) ! a) = parent (files s ! a)"
  "mutex (files (release_all xs s) ! a) = mutex (files s ! a)"
  "entries (files (release_all xs s) ! a) = entries (files s ! a)"
  "owners (files (release_all xs s) ! a) = owners (files s ! a)"
proof -
  have e: "(files (release_all xs s) ! a)\<lparr>destroyed := True\<rparr> = (files s ! a)\<lparr>destroyed := True\<rparr>"
    by (rule release_all_same)
  from arg_cong [OF e, of kind] show "kind (files (release_all xs s) ! a) = kind (files s ! a)" by simp
  from arg_cong [OF e, of parent] show "parent (files (release_all xs s) ! a) = parent (files s ! a)" by simp
  from arg_cong [OF e, of mutex] show "mutex (files (release_all xs s) ! a) = mutex (files s ! a)" by simp
  from arg_cong [OF e, of entries] show "entries (files (release_all xs s) ! a) = entries (files s ! a)" by simp
  from arg_cong [OF e, of owners] show "owners (files (release_all xs s) ! a) = owners (files s ! a)" by simp
qed

lemma release_all_mono:
  "destroyed (files s ! a) \<Longrightarrow> destroyed (files (release_all xs s) ! a)"
proof (induction xs s rule: release_all.induct)
  case (1 s)
  then show ?case by simp
next
  case (2 x xs s)
  show ?case
  proof (cases "live s x \<and> owners (theFile s x) = 0 \<and> holders (files s) x = []")
    case True
    then have x: "x < length (files s)" by (simp add: live_def)
    have "destroyed (files (store x ((theFile s x)\<lparr>destroyed := True\<rparr>) s) ! a)"
      using x 2(3) by (cases "a = x") (simp_all add: theFile_def)
    with 2(1) [OF True] show ?thesis by (simp add: release_all_destroy [OF True])
  next
    case False
    with 2(2) [OF False] 2(3) show ?thesis by (simp add: release_all_skip)
  qed
qed

lemma release_all_owned:
  "0 < owners (files s ! a) \<Longrightarrow>
   destroyed (files (release_all xs s) ! a) = destroyed (files s ! a)"
proof (induction xs s rule: release_all.induct)
  case (1 s)
  then show ?case by simp
next
  case (2 x xs s)
  show ?case
  proof (cases "live s x \<and> owners (theFile s x) = 0 \<and> holders (files s) x = []")
    case True
    then have x: "x < length (files s)" and ne: "a \<noteq> x"
      using 2(3) by (auto simp: live_def theFile_def)
    have same: "files (store x ((theFile s x)\<lparr>destroyed := True\<rparr>) s) ! a = files s ! a"
      using ne by simp
    have "destroyed (files (release_all (released (theFile s x) @ xs)
              (store x ((theFile s x)\<lparr>destroyed := True\<rparr>) s)) ! a) = destroyed (files s ! a)"
      using 2(1) [OF True] 2(3) unfolding same by simp
    then show ?thesis by (simp add: release_all_destroy [OF True])
  next
    case False
    with 2(2) [OF False] 2(3) show ?thesis by (simp add: release_all_skip)
  qed
qed

lemma release_all_noop:
  "\<not> (live s a \<and> owners (theFile s a) = 0 \<and> holders (files s) a = []) \<Longrightarrow> release_all [a] s = s"
  by (simp add: release_all_skip)

subsection \<open>Holders of a node\<close>

lemma filter_assign_self:
  "\<forall>e\<in>set es. snd e \<noteq> Some c \<Longrightarrow>
   filter (\<lambda>e. snd e = Some c) (entries_assign n (Some c) es) = [(n, Some c)]"
  by (induction es) auto

lemma filter_assign_other:
  "x \<noteq> c \<Longrightarrow> entries_find n es \<noteq> Some (Some x) \<Longrightarrow>
   filter (\<lambda>e. snd e = Some x) (entries_assign n (Some c) es) = filter (\<lambda>e. snd e = Some x) es"
  by (induction es) auto

lemma filter_erase_other:
  "x \<noteq> c \<Longrightarrow> entries_find n es = Some (Some c) \<Longrightarrow>
   filter (\<lambda>e. snd e = Some x) (entries_erase n es) = filter (\<lambda>e. snd e = Some x) es"
  by (induction es) auto

lemma filter_erase_self:
  "entries_find n es = Some (Some c) \<Longrightarrow> map fst (filter (\<lambda>e. snd e = Some c) es) = [n] \<Longrightarrow>
   filter (\<lambda>e. snd e = Some c) (entries_erase n es) = []"
  by (induction es) (auto split: if_splits)

lemma concat_single:
  assumes "h < N" and "\<And>d. d < N \<Longrightarrow> d \<noteq> h \<Longrightarrow> g d = []"
  shows "concat (map g [0..<N]) = g h"
proof -
  have split: "[0..<N] = [0..<h] @ h # [Suc h..<N]"
    using assms(1) by (metis le0 upt_conv_Cons upt_add_eq_append less_imp_le_nat le_add_diff_inverse)
  have a: "concat (map g [0..<h]) = []" using assms by simp
  have b: "concat (map g [Suc h..<N]) = []" using assms by simp
  show ?thesis unfolding split using a b by (simp del: concat_eq_Nil_conv)
qed

lemma holders_Nil: "(holders fs c = []) = (\<forall>d<length fs. dir_names (fs ! d) c = [])"
  by (auto simp: holders_def)

lemma set_holders:
  "set (holders fs c) = {(d, n). d < length fs \<and> n \<in> set (dir_names (fs ! d) c)}"
  by (auto simp: holders_def)

lemma holders_single:
  assumes "map fst (holders fs c) = [d]"
  shows "d < length fs \<and> (\<exists>n. dir_names (fs ! d) c = [n])
         \<and> (\<forall>d'<length fs. d' \<noteq> d \<longrightarrow> dir_names (fs ! d') c = [])"
proof -
  from assms obtain n where one: "holders fs c = [(d, n)]"
    by (cases "holders fs c") auto
  then have mem: "(d, n) \<in> set (holders fs c)" by simp
  then have d: "d < length fs" by (simp add: set_holders)
  have others: "dir_names (fs ! d') c = []" if "d' < length fs" "d' \<noteq> d" for d'
  proof (rule ccontr)
    assume "dir_names (fs ! d') c \<noteq> []"
    then obtain m where "m \<in> set (dir_names (fs ! d') c)" by (cases "dir_names (fs ! d') c") auto
    then have "(d', m) \<in> set (holders fs c)" using that by (simp add: set_holders)
    then show False using that one by simp
  qed
  have "holders fs c = map (Pair d) (dir_names (fs ! d) c)"
    unfolding holders_def using d others by (intro concat_single) simp_all
  with one have "dir_names (fs ! d) c = [n]"
    by (cases "dir_names (fs ! d) c") auto
  with d others show ?thesis by blast
qed

lemma holders_from_single:
  assumes "d < length fs" and "dir_names (fs ! d) c = [n]"
    and "\<And>d'. d' < length fs \<Longrightarrow> d' \<noteq> d \<Longrightarrow> dir_names (fs ! d') c = []"
  shows "holders fs c = [(d, n)]"
proof -
  have "holders fs c = map (Pair d) (dir_names (fs ! d) c)"
    unfolding holders_def using assms(1,3) by (intro concat_single) simp_all
  then show ?thesis using assms(2) by simp
qed

lemma holders_cong:
  assumes "length fs' = length fs"
    and "\<And>d. d < length fs \<Longrightarrow> dir_names (fs' ! d) c = dir_names (fs ! d) c"
  shows "holders fs' c = holders fs c"
  unfolding holders_def using assms by (auto intro: arg_cong [where f = concat])

lemma filter_erase_empty:
  "entries_find n es = Some (Some c) \<Longrightarrow> filter (\<lambda>e. snd e = Some c) (entries_erase n es) = [] \<Longrightarrow>
   map fst (filter (\<lambda>e. snd e = Some c) es) = [n]"
  by (induction es) (auto split: if_splits)

lemma linked_iff:
  "linked s = (\<forall>c. live s c \<longrightarrow>
      (case getParent s c of None \<Rightarrow> holders (files s) c = []
                          | Some d \<Rightarrow> map fst (holders (files s) c) = [d]))"
  by (auto simp: linked_def list_all_iff live_def)

lemma I1_iff:
  "I1 s = (\<forall>c. live s c \<longrightarrow>
      (getParent s c \<noteq> None) = (length (remdups (map fst (holders (files s) c))) = 1))"
  by (auto simp: I1_def list_all_iff live_def)

lemma linked_I1: "linked s \<Longrightarrow> I1 s"
  unfolding linked_iff I1_iff
proof (intro allI impI)
  fix c assume inv: "\<forall>c. live s c \<longrightarrow> (case getParent s c of None \<Rightarrow> holders (files s) c = []
                          | Some d \<Rightarrow> map fst (holders (files s) c) = [d])" and c: "live s c"
  show "(getParent s c \<noteq> None) = (length (remdups (map fst (holders (files s) c))) = 1)"
    using inv [rule_format, OF c] by (cases "getParent s c") auto
qed

lemma getParent_files:
  "getParent s x = (case parent (files s ! x) of None \<Rightarrow> None
                    | Some d \<Rightarrow> if d < length (files s) \<and> \<not> destroyed (files s ! d) then Some d else None)"
  by (simp add: getParent_def theFile_def live_def split: option.splits)

lemma find_mem: "entries_find n es = Some v \<Longrightarrow> (n, v) \<in> set es"
  by (induction es) (auto split: if_splits)

lemma link_files_nth:
  "a < length fs \<Longrightarrow> link_files h n c fs ! a =
     (let f = (if a = h then (fs ! a)\<lparr>entries := entries_assign n (Some c) (entries (fs ! a))\<rparr>
               else fs ! a)
      in if a = c then f\<lparr>parent := Some h\<rparr> else f)"
  by (simp add: link_files_def)

lemma length_link_files [simp]: "length (link_files h n c fs) = length fs"
  by (simp add: link_files_def)

lemma unlink_files_nth:
  "a < length fs \<Longrightarrow> unlink_files h n c fs ! a =
     (let f = (if a = c then (fs ! a)\<lparr>parent := None\<rparr> else fs ! a)
      in if a = h then f\<lparr>entries := entries_erase n (entries f)\<rparr> else f)"
  by (simp add: unlink_files_def)

lemma length_unlink_files [simp]: "length (unlink_files h n c fs) = length fs"
  by (simp add: unlink_files_def)

lemma link_files_kept [simp]:
  "a < length fs \<Longrightarrow> destroyed (link_files h n c fs ! a) = destroyed (fs ! a)"
  "a < length fs \<Longrightarrow> kind (link_files h n c fs ! a) = kind (fs ! a)"
  "a < length fs \<Longrightarrow> owners (link_files h n c fs ! a) = owners (fs ! a)"
  by (simp_all add: link_files_nth Let_def)

lemma unlink_files_kept [simp]:
  "a < length fs \<Longrightarrow> destroyed (unlink_files h n c fs ! a) = destroyed (fs ! a)"
  "a < length fs \<Longrightarrow> kind (unlink_files h n c fs ! a) = kind (fs ! a)"
  "a < length fs \<Longrightarrow> owners (unlink_files h n c fs ! a) = owners (fs ! a)"
  by (simp_all add: unlink_files_nth Let_def)

lemma live_link: "files s' = link_files h n c (files s) \<Longrightarrow> live s' a = live s a"
  by (auto simp: live_def)

lemma live_unlink: "files s' = unlink_files h n c (files s) \<Longrightarrow> live s' a = live s a"
  by (auto simp: live_def)

lemma dir_names_link_other:
  "d < length fs \<Longrightarrow> d \<noteq> h \<Longrightarrow> dir_names (link_files h n c fs ! d) x = dir_names (fs ! d) x"
  by (auto simp: dir_names_def link_files_nth Let_def)

lemma dir_names_link_dir:
  "h < length fs \<Longrightarrow> kind (fs ! h) = DirectoryKind \<Longrightarrow> \<not> destroyed (fs ! h) \<Longrightarrow>
   dir_names (link_files h n c fs ! h) x =
     map fst (filter (\<lambda>e. snd e = Some x) (entries_assign n (Some c) (entries (fs ! h))))"
  by (auto simp: dir_names_def link_files_nth Let_def)

lemma dir_names_unlink_other:
  "d < length fs \<Longrightarrow> d \<noteq> h \<Longrightarrow> dir_names (unlink_files h n c fs ! d) x = dir_names (fs ! d) x"
  by (auto simp: dir_names_def unlink_files_nth Let_def)

lemma dir_names_unlink_dir:
  "h < length fs \<Longrightarrow> kind (fs ! h) = DirectoryKind \<Longrightarrow> \<not> destroyed (fs ! h) \<Longrightarrow>
   dir_names (unlink_files h n c fs ! h) x =
     map fst (filter (\<lambda>e. snd e = Some x) (entries_erase n (entries (fs ! h))))"
  by (auto simp: dir_names_def unlink_files_nth Let_def)

lemma dir_names_dir:
  "kind f = DirectoryKind \<Longrightarrow> \<not> destroyed f \<Longrightarrow>
   dir_names f x = map fst (filter (\<lambda>e. snd e = Some x) (entries f))"
  by (simp add: dir_names_def)

lemma holders_entry:
  assumes "live s h" and "kind (theFile s h) = DirectoryKind"
    and "(n, Some c) \<in> set (entries (theFile s h))"
  shows "(h, n) \<in> set (holders (files s) c)"
proof -
  have "n \<in> set (dir_names (files s ! h) c)"
    using assms by (force simp: dir_names_def live_def theFile_def)
  then show ?thesis using assms(1) by (simp add: set_holders live_def)
qed

lemma linked_link_files:
  assumes inv: "linked s" and h: "live s h" and dir: "kind (files s ! h) = DirectoryKind"
    and c: "live s c" and orphan: "getParent s c = None"
    and fresh: "\<And>x. entries_find n (entries (files s ! h)) = Some (Some x) \<Longrightarrow> x = c"
    and s': "files s' = link_files h n c (files s)"
  shows "linked s'"
  unfolding linked_iff
proof (intro allI impI)
  fix x assume "live s' x"
  then have lx: "live s x" by (simp add: live_link [OF s'])
  then have x: "x < length (files s)" by (simp add: live_def)
  let ?fs = "files s"
  have hh: "h < length ?fs" and ha: "\<not> destroyed (?fs ! h)" using h by (simp_all add: live_def)
  have cc: "c < length ?fs" using c by (simp add: live_def)
  have none: "holders ?fs c = []"
    using inv c orphan by (auto simp: linked_iff)
  then have "dir_names (?fs ! h) c = []" using hh by (simp add: holders_Nil)
  then have noc: "\<forall>e\<in>set (entries (?fs ! h)). snd e \<noteq> Some c"
    using dir ha by (auto simp: dir_names_def filter_empty_conv)
  show "case getParent s' x of None \<Rightarrow> holders (files s') x = []
          | Some d \<Rightarrow> map fst (holders (files s') x) = [d]"
  proof (cases "x = c")
    case True
    have par: "getParent s' c = Some h"
      using cc hh ha by (auto simp: getParent_files s' link_files_nth Let_def)
    have "holders (files s') c = [(h, n)]"
    proof (rule holders_from_single)
      show "h < length (files s')" using hh by (simp add: s')
      show "dir_names (files s' ! h) c = [n]"
        using hh dir ha noc by (simp add: s' dir_names_link_dir filter_assign_self)
    next
      fix d' assume "d' < length (files s')" and ne: "d' \<noteq> h"
      then have d': "d' < length ?fs" by (simp add: s')
      have "dir_names (?fs ! d') c = []" using none d' by (simp add: holders_Nil)
      then show "dir_names (files s' ! d') c = []"
        using d' ne by (simp add: s' dir_names_link_other)
    qed
    with par True show ?thesis by simp
  next
    case False
    have par: "getParent s' x = getParent s x"
      using x False by (auto simp: getParent_files s' link_files_nth Let_def split: option.splits)
    have "entries_find n (entries (?fs ! h)) \<noteq> Some (Some x)"
      using fresh False by blast
    then have same: "filter (\<lambda>e. snd e = Some x) (entries_assign n (Some c) (entries (?fs ! h)))
        = filter (\<lambda>e. snd e = Some x) (entries (?fs ! h))"
      using False by (simp add: filter_assign_other)
    have "holders (files s') x = holders ?fs x"
    proof (rule holders_cong)
      show "length (files s') = length ?fs" by (simp add: s')
    next
      fix d assume "d < length ?fs"
      then show "dir_names (files s' ! d) x = dir_names (?fs ! d) x"
        using same by (cases "d = h")
          (simp_all add: s' dir_names_link_other dir_names_link_dir [OF hh dir ha] dir_names_dir [OF dir ha])
    qed
    moreover have "case getParent s x of None \<Rightarrow> holders ?fs x = []
        | Some d \<Rightarrow> map fst (holders ?fs x) = [d]"
      using inv lx unfolding linked_iff by blast
    ultimately show ?thesis using par by (simp split: option.splits)
  qed
qed

lemma linked_unlink_files:
  assumes inv: "linked s" and h: "live s h" and dir: "kind (files s ! h) = DirectoryKind"
    and c: "live s c"
    and n: "entries_find n (entries (files s ! h)) = Some (Some c)"
    and s': "files s' = unlink_files h n c (files s)"
  shows "linked s'"
  unfolding linked_iff
proof (intro allI impI)
  fix x assume "live s' x"
  then have lx: "live s x" by (simp add: live_unlink [OF s'])
  then have x: "x < length (files s)" by (simp add: live_def)
  let ?fs = "files s"
  have hh: "h < length ?fs" and ha: "\<not> destroyed (?fs ! h)" using h by (simp_all add: live_def)
  have cc: "c < length ?fs" using c by (simp add: live_def)
  have "(n, Some c) \<in> set (entries (?fs ! h))"
    using n by (rule find_mem)
  then have "n \<in> set (dir_names (?fs ! h) c)"
    using dir ha by (force simp: dir_names_def)
  then have mem: "(h, n) \<in> set (holders ?fs c)"
    using hh by (simp add: set_holders)
  then obtain d where "getParent s c = Some d" and one: "map fst (holders ?fs c) = [d]"
    using inv c by (cases "getParent s c") (auto simp: linked_iff)
  from one obtain m0 where "holders ?fs c = [(d, m0)]"
    by (cases "holders ?fs c") auto
  with mem have dh: "d = h" by simp
  from holders_single [OF one] obtain m where names: "dir_names (?fs ! h) c = [m]"
    and others: "\<And>d'. d' < length ?fs \<Longrightarrow> d' \<noteq> h \<Longrightarrow> dir_names (?fs ! d') c = []"
    unfolding dh by blast
  from names \<open>n \<in> set (dir_names (?fs ! h) c)\<close> have "m = n" by simp
  with names dir ha have only: "map fst (filter (\<lambda>e. snd e = Some c) (entries (?fs ! h))) = [n]"
    by (simp add: dir_names_def)
  show "case getParent s' x of None \<Rightarrow> holders (files s') x = []
          | Some d \<Rightarrow> map fst (holders (files s') x) = [d]"
  proof (cases "x = c")
    case True
    have par: "getParent s' c = None"
      using cc hh by (simp add: getParent_files s' unlink_files_nth Let_def)
    have "holders (files s') c = []"
      unfolding holders_Nil
    proof (intro allI impI)
      fix d' assume "d' < length (files s')"
      then have d': "d' < length ?fs" by (simp add: s')
      show "dir_names (files s' ! d') c = []"
      proof (cases "d' = h")
        case True
        then show ?thesis
          using hh dir ha filter_erase_self [OF n only] by (simp add: s' dir_names_unlink_dir)
      next
        case False
        then show ?thesis
          using others [OF d' False] d' by (simp add: s' dir_names_unlink_other)
      qed
    qed
    with par True show ?thesis by simp
  next
    case False
    have par: "getParent s' x = getParent s x"
      using x False by (auto simp: getParent_files s' unlink_files_nth Let_def split: option.splits)
    have same: "filter (\<lambda>e. snd e = Some x) (entries_erase n (entries (?fs ! h)))
        = filter (\<lambda>e. snd e = Some x) (entries (?fs ! h))"
      using False n by (simp add: filter_erase_other)
    have "holders (files s') x = holders ?fs x"
    proof (rule holders_cong)
      show "length (files s') = length ?fs" by (simp add: s')
    next
      fix d assume "d < length ?fs"
      then show "dir_names (files s' ! d) x = dir_names (?fs ! d) x"
        using same by (cases "d = h")
          (simp_all add: s' dir_names_unlink_other dir_names_unlink_dir [OF hh dir ha] dir_names_dir [OF dir ha])
    qed
    moreover have "case getParent s x of None \<Rightarrow> holders ?fs x = []
        | Some d \<Rightarrow> map fst (holders ?fs x) = [d]"
      using inv lx unfolding linked_iff by blast
    ultimately show ?thesis using par by (simp split: option.splits)
  qed
qed

subsection \<open>What the two operations do\<close>

lemma getDir_eq_Inr: "(getDir s h = Inr d) = (d = h \<and> live s h \<and> kind (theFile s h) = DirectoryKind)"
  by (auto simp: getDir_def)

lemma assign_entry_release:
  "assign_entry d n p s =
     release_all (case entries_find n (entries (theFile s d)) of Some (Some x) \<Rightarrow> [x] | _ \<Rightarrow> [])
       (emit (WriteEntry d n p)
          (store d ((theFile s d)\<lparr>entries := entries_assign n p (entries (theFile s d))\<rparr>) s))"
  by (simp add: assign_entry_def reset_def Let_def split: option.splits)

lemma release_all_keeps:
  assumes "live s h" and "0 < owners (theFile s h)" and "kind (theFile s h) = DirectoryKind"
    and "(n, Some c) \<in> set (entries (theFile s h))" and "live s c"
  shows "live (release_all xs s) c"
  using assms
proof (induction xs s rule: release_all.induct)
  case (1 s)
  then show ?case by simp
next
  case (2 x xs s)
  show ?case
  proof (cases "live s x \<and> owners (theFile s x) = 0 \<and> holders (files s) x = []")
    case True
    have "(h, n) \<in> set (holders (files s) c)"
      using "2.prems"(1,3,4) by (rule holders_entry)
    with True have xc: "x \<noteq> c" by auto
    from True "2.prems"(2) have xh: "x \<noteq> h" by auto
    let ?s = "store x ((theFile s x)\<lparr>destroyed := True\<rparr>) s"
    have x: "x < length (files s)" using True by (simp add: live_def)
    have same: "theFile ?s a = theFile s a" if "a \<noteq> x" for a
      using that by (simp add: theFile_def)
    have lv: "live ?s a = live s a" if "a \<noteq> x" for a
      using that by (simp add: live_def)
    have "live (release_all (released (theFile s x) @ xs) ?s) c"
      using "2.prems" xc xh by (intro "2.IH"(1) [OF True]) (simp_all add: same lv)
    then show ?thesis by (simp add: release_all_destroy [OF True])
  next
    case False
    with "2.IH"(2) [OF False] "2.prems" show ?thesis by (simp add: release_all_skip)
  qed
qed

lemma setEntry_Inr_steps:
  assumes "setEntry t h n p s = Inr s'"
  shows "\<exists>c s1 s2 s3. p = Some c \<and> locked t (Some c) s = Inr (c, s1) \<and> getDir s1 h = Inr h
           \<and> s2 = assign_entry h n (Some c) s1 \<and> getParent s2 c = None
           \<and> s3 = setParent c (Some h) s2 \<and> Handle_dtor t c s3 = Inr s'"
proof -
  from assms obtain c s1 where l: "locked t p s = Inr (c, s1)"
    and rest: "bind (getDir s1 h) (\<lambda>d.
       let s2 = assign_entry d n p s1
       in if getParent s2 c \<noteq> None then Inl (AssertionFailed, s2)
          else Handle_dtor t c (setParent c (Some h) s2)) = Inr s'"
    by (auto simp: setEntry_def bind_eq_Inr)
  from l have p: "p = Some c" by (simp add: locked_eq_Inr)
  from rest obtain d where gd: "getDir s1 h = Inr d"
    and r2: "(let s2 = assign_entry d n p s1
       in if getParent s2 c \<noteq> None then Inl (AssertionFailed, s2)
          else Handle_dtor t c (setParent c (Some h) s2)) = Inr s'"
    by (auto simp: bind_eq_Inr)
  from gd have d: "d = h" by (simp add: getDir_eq_Inr)
  from r2 have "getParent (assign_entry h n (Some c) s1) c = None"
    and "Handle_dtor t c (setParent c (Some h) (assign_entry h n (Some c) s1)) = Inr s'"
    by (auto simp: Let_def d p split: if_splits)
  with l p gd d show ?thesis by auto
qed

lemma store_same [simp]: "store a (theFile s a) s = s"
  by (simp add: store_def theFile_def)

lemma subscript_present:
  "entries_find n es = Some v \<Longrightarrow> entries_subscript n es = (es, v)"
  by (simp add: entries_subscript_def)

lemma subscript_absent:
  "entries_find n es = None \<Longrightarrow> entries_subscript n es = (entries_assign n None es, None)"
  by (simp add: entries_subscript_def)

lemma Handle_dtor_held:
  assumes "live s h" and "kind (theFile s h) = DirectoryKind"
    and "(n, Some c) \<in> set (entries (theFile s h))" and "live s c"
  shows "Handle_dtor t c s = Inr (unlock t c s)"
proof -
  have "(h, n) \<in> set (holders (files s) c)"
    using assms(1-3) by (rule holders_entry)
  then have "holders (files s) c \<noteq> []" by auto
  then have "release_all [c] s = s" by (intro release_all_noop) simp
  then show ?thesis using assms(4) by (simp add: Handle_dtor_def reset_def)
qed

lemma assign_entry_free:
  assumes h: "live s h" and dir: "kind (theFile s h) = DirectoryKind"
    and free: "\<forall>x. entries_find n (entries (theFile s h)) = Some (Some x) \<longrightarrow> x = c"
  shows "assign_entry h n (Some c) s =
     emit (WriteEntry h n (Some c))
       (store h ((theFile s h)\<lparr>entries := entries_assign n (Some c) (entries (theFile s h))\<rparr>) s)"
proof -
  define w where "w = emit (WriteEntry h n (Some c))
       (store h ((theFile s h)\<lparr>entries := entries_assign n (Some c) (entries (theFile s h))\<rparr>) s)"
  have livew: "live w a = live s a" for a by (simp add: w_def)
  have filew: "theFile w h = (theFile s h)\<lparr>entries := entries_assign n (Some c) (entries (theFile s h))\<rparr>"
    using h by (simp add: w_def)
  have "entries_find n (entries (theFile w h)) = Some (Some c)" by (simp add: filew)
  then have "(n, Some c) \<in> set (entries (theFile w h))" by (rule find_mem)
  moreover have "kind (theFile w h) = DirectoryKind" using dir by (simp add: filew)
  ultimately have "(h, n) \<in> set (holders (files w) c)"
    using h by (intro holders_entry) (simp_all add: livew)
  then have "holders (files w) c \<noteq> []" by auto
  then have keep: "release_all [c] w = w" by (intro release_all_noop) simp
  show ?thesis
  proof (cases "entries_find n (entries (theFile s h))")
    case None
    then show ?thesis by (simp add: assign_entry_def Let_def)
  next
    case (Some q)
    show ?thesis
    proof (cases q)
      case None
      with Some show ?thesis by (simp add: assign_entry_def Let_def reset_def)
    next
      case (Some x)
      with \<open>entries_find n (entries (theFile s h)) = Some q\<close> free have "q = Some c" by simp
      with \<open>entries_find n (entries (theFile s h)) = Some q\<close> keep show ?thesis
        by (simp add: assign_entry_def Let_def reset_def w_def)
    qed
  qed
qed

lemma setEntry_free:
  assumes run: "setEntry t h n p s = Inr s'"
    and free: "\<forall>x. entries_find n (entries (theFile s h)) = Some (Some x) \<longrightarrow> p = Some x"
  shows "\<exists>c. p = Some c \<and> live s c \<and> lockable t s c \<and> live s h
           \<and> kind (theFile s h) = DirectoryKind \<and> getParent s c = None
           \<and> files s' = link_files h n c (files s)
           \<and> log s' = log s @ [Lock c, WriteEntry h n (Some c), WriteParent c (Some h), Unlock c]"
proof -
  from setEntry_Inr_steps [OF run] obtain c s1 s2 s3 where p: "p = Some c"
    and l: "locked t (Some c) s = Inr (c, s1)" and gd: "getDir s1 h = Inr h"
    and s2: "s2 = assign_entry h n (Some c) s1" and par2: "getParent s2 c = None"
    and s3: "s3 = setParent c (Some h) s2" and dt: "Handle_dtor t c s3 = Inr s'"
    by blast
  from l have c: "live s c" and lk: "lockable t s c"
    and s1: "s1 = emit (Lock c) (store c ((theFile s c)\<lparr>mutex := relock t (mutex (theFile s c))\<rparr>) s)"
    by (simp_all add: locked_eq_Inr)
  have live1: "live s1 a = live s a" for a by (simp add: s1)
  have file1: "theFile s1 a = (if a = c then (theFile s c)\<lparr>mutex := relock t (mutex (theFile s c))\<rparr> else theFile s a)" for a
    using c by (simp add: s1)
  from gd have h1: "live s1 h" and dir1: "kind (theFile s1 h) = DirectoryKind"
    by (simp_all add: getDir_eq_Inr)
  then have h: "live s h" and dir: "kind (theFile s h) = DirectoryKind"
    by (auto simp: live1 file1 split: if_splits)
  have free1: "\<forall>x. entries_find n (entries (theFile s1 h)) = Some (Some x) \<longrightarrow> x = c"
    using free p by (auto simp: file1)
  have s2': "s2 = emit (WriteEntry h n (Some c))
       (store h ((theFile s1 h)\<lparr>entries := entries_assign n (Some c) (entries (theFile s1 h))\<rparr>) s1)"
    unfolding s2 using h1 dir1 free1 by (rule assign_entry_free)
  have live2: "live s2 a = live s a" for a by (simp add: s2' live1)
  have file2: "theFile s2 a = (if a = h then (theFile s1 h)\<lparr>entries := entries_assign n (Some c) (entries (theFile s1 h))\<rparr> else theFile s1 a)" for a
    using h by (simp add: s2' live1)
  have live3: "live s3 a = live s a" for a by (simp add: s3 setParent_def live2)
  have file3: "theFile s3 a = (if a = c then (theFile s2 c)\<lparr>parent := Some h\<rparr> else theFile s2 a)" for a
    using c by (simp add: s3 setParent_def live2)
  have "parent (theFile s2 c) = parent (theFile s c)"
    by (auto simp: file2 file1)
  with par2 have orphan: "getParent s c = None"
    by (auto simp: getParent_def live2 split: option.splits if_splits)
  have "entries_find n (entries (theFile s3 h)) = Some (Some c)"
    by (auto simp: file3 file2)
  then have mem: "(n, Some c) \<in> set (entries (theFile s3 h))" by (rule find_mem)
  have dir3: "kind (theFile s3 h) = DirectoryKind"
    using dir by (auto simp: file3 file2 file1)
  have "Handle_dtor t c s3 = Inr (unlock t c s3)"
    using h c dir3 mem by (intro Handle_dtor_held [where h = h and n = n]) (simp_all add: live3)
  with dt have s': "s' = unlock t c s3" by simp
  have link: "link_files h n c (files s) ! a =
     (let f = (if a = h then (theFile s a)\<lparr>entries := entries_assign n (Some c) (entries (theFile s a))\<rparr>
               else theFile s a)
      in if a = c then f\<lparr>parent := Some h\<rparr> else f)" if "a < length (files s)" for a
    using that by (simp add: link_files_nth theFile_def)
  have cl: "c < length (files s)" and hl: "h < length (files s)"
    using c h by (simp_all add: live_def)
  have shape: "theFile s3 c = (link_files h n c (files s) ! c)\<lparr>mutex := relock t (mutex (theFile s c))\<rparr>"
    using cl by (auto simp: file3 file2 file1 link Let_def)
  have c3: "live s3 c" using c by (simp add: live3)
  have rel: "files (unlock t c s3) = (files s3)[c := (link_files h n c (files s) ! c)\<lparr>mutex := mutex (theFile s c)\<rparr>]"
    and rlog: "log (unlock t c s3) = log s3 @ [Unlock c]"
    using unlock_relock [OF c lk shape c3] by simp_all
  have len3: "length (files s3) = length (files s)"
    by (simp add: s3 setParent_def s2' s1)
  have "files (unlock t c s3) = link_files h n c (files s)"
  proof (rule nth_equalityI)
    show "length (files (unlock t c s3)) = length (link_files h n c (files s))"
      by (simp add: rel len3)
  next
    fix a assume "a < length (files (unlock t c s3))"
    then have a: "a < length (files s)" by (simp add: rel len3)
    have nth3: "files s3 ! a = theFile s3 a" by (simp add: theFile_def)
    have cc: "c < length (files s3)" using cl by (simp add: len3)
    show "files (unlock t c s3) ! a = link_files h n c (files s) ! a"
    proof (cases "a = c")
      case True
      have "mutex (link_files h n c (files s) ! c) = mutex (theFile s c)"
        using cl by (auto simp: link Let_def)
      then show ?thesis using cc True by (simp add: rel)
    next
      case False
      then show ?thesis using a by (auto simp: rel nth3 file3 file2 file1 link Let_def)
    qed
  qed
  moreover have "log (unlock t c s3) = log s @ [Lock c, WriteEntry h n (Some c), WriteParent c (Some h), Unlock c]"
  proof -
    have "log s3 = log s @ [Lock c, WriteEntry h n (Some c), WriteParent c (Some h)]"
      by (simp add: s3 setParent_def s2' s1)
    then show ?thesis by (simp add: rlog)
  qed
  ultimately show ?thesis using p c lk h dir orphan s' by simp
qed

lemma unlinkEntry_absent:
  assumes "live s h" and "kind (theFile s h) = DirectoryKind"
    and "entries_find n (entries (theFile s h)) = None"
  shows "unlinkEntry t h n s =
     Inl (NullDereference,
          store h ((theFile s h)\<lparr>entries := entries_assign n None (entries (theFile s h))\<rparr>) s)"
  using assms by (simp add: unlinkEntry_def getDir_def subscript_absent)

lemma unlinkEntry_null:
  assumes "live s h" and "kind (theFile s h) = DirectoryKind"
    and "entries_find n (entries (theFile s h)) = Some None"
  shows "unlinkEntry t h n s = Inl (NullDereference, s)"
  using assms by (simp add: unlinkEntry_def getDir_def subscript_present)

lemma unlinkEntry_present:
  assumes h: "live s h" and dir: "kind (theFile s h) = DirectoryKind"
    and n: "entries_find n (entries (theFile s h)) = Some (Some c)"
  shows "unlinkEntry t h n s =
     bind (locked t (Some c) s) (\<lambda>(unlinked, s2).
       let s3 = setParent unlinked None s2 in
     bind (getDir s3 h) (\<lambda>d'.
       let s4 = emit (EraseEntry d' n)
                  (store d' ((theFile s3 d')\<lparr>entries := entries_erase n (entries (theFile s3 d'))\<rparr>) s3)
       in Handle_dtor t unlinked s4))"
  using assms by (simp add: unlinkEntry_def getDir_def subscript_present)

lemma holders_erased:
  assumes len: "length fs' = length fs"
    and same: "\<And>d. d < length fs \<Longrightarrow> kind (fs' ! d) = kind (fs ! d) \<and> destroyed (fs' ! d) = destroyed (fs ! d)
        \<and> entries (fs' ! d) = (if d = h then entries_erase n (entries (fs ! d)) else entries (fs ! d))"
    and h: "h < length fs" and dir: "kind (fs ! h) = DirectoryKind" and alive: "\<not> destroyed (fs ! h)"
    and n: "entries_find n (entries (fs ! h)) = Some (Some c)"
  shows "(holders fs' c = []) = (holders fs c = [(h, n)])"
proof
  assume e: "holders fs' c = []"
  have at: "dir_names (fs ! h) c = [n]"
  proof -
    have "dir_names (fs' ! h) c = []" using e h len by (simp add: holders_Nil)
    then have "filter (\<lambda>e. snd e = Some c) (entries_erase n (entries (fs ! h))) = []"
      using same [OF h] dir alive by (auto simp: dir_names_def)
    from filter_erase_empty [OF n this] show ?thesis using dir alive by (simp add: dir_names_def)
  qed
  show "holders fs c = [(h, n)]"
  proof (rule holders_from_single [OF h at])
    fix d' assume d': "d' < length fs" and ne: "d' \<noteq> h"
    have "dir_names (fs' ! d') c = []" using e d' len by (simp add: holders_Nil)
    then show "dir_names (fs ! d') c = []"
      using same [OF d'] ne by (auto simp: dir_names_def split: if_splits)
  qed
next
  assume one: "holders fs c = [(h, n)]"
  then have "map fst (holders fs c) = [h]" by simp
  from holders_single [OF this] obtain m where names: "dir_names (fs ! h) c = [m]"
    and others: "\<And>d'. d' < length fs \<Longrightarrow> d' \<noteq> h \<Longrightarrow> dir_names (fs ! d') c = []"
    by blast
  have "holders fs c = [(h, m)]" using h names others by (intro holders_from_single) simp_all
  with one have "m = n" by simp
  with names dir alive have only: "map fst (filter (\<lambda>e. snd e = Some c) (entries (fs ! h))) = [n]"
    by (simp add: dir_names_def)
  show "holders fs' c = []"
    unfolding holders_Nil
  proof (intro allI impI)
    fix d assume "d < length fs'"
    then have d: "d < length fs" by (simp add: len)
    show "dir_names (fs' ! d) c = []"
    proof (cases "d = h")
      case True
      then show ?thesis
        using same [OF h] filter_erase_self [OF n only] by (auto simp: dir_names_def)
    next
      case False
      then show ?thesis using same [OF d] others [OF d False] by (auto simp: dir_names_def split: if_splits)
    qed
  qed
qed

lemma unlinkEntry_run:
  assumes h: "live s h" and dir: "kind (theFile s h) = DirectoryKind"
    and n: "entries_find n (entries (theFile s h)) = Some (Some c)"
    and c: "live s c" and free: "lockable t s c"
  shows "(owners (theFile s c) = 0 \<and> holders (files s) c = [(h, n)] \<longrightarrow>
            (\<exists>sa. unlinkEntry t h n s = Inl (UseAfterFree, sa) \<and> \<not> live sa c))
       \<and> (\<not> (owners (theFile s c) = 0 \<and> holders (files s) c = [(h, n)]) \<longrightarrow>
            (\<exists>s'. unlinkEntry t h n s = Inr s'
               \<and> files s' = unlink_files h n c (files s)
               \<and> log s' = log s @ [Lock c, WriteParent c None, EraseEntry h n, Unlock c]))"
proof -
  define s2 where "s2 = emit (Lock c) (store c ((theFile s c)\<lparr>mutex := relock t (mutex (theFile s c))\<rparr>) s)"
  define s3 where "s3 = setParent c None s2"
  define s4 where "s4 = emit (EraseEntry h n)
      (store h ((theFile s3 h)\<lparr>entries := entries_erase n (entries (theFile s3 h))\<rparr>) s3)"
  have l: "locked t (Some c) s = Inr (c, s2)"
    using c free by (simp add: locked_eq_Inr s2_def)
  have live2: "live s2 a = live s a" for a by (simp add: s2_def)
  have live3: "live s3 a = live s a" for a by (simp add: s3_def setParent_def live2)
  have live4: "live s4 a = live s a" for a by (simp add: s4_def live3)
  have file2: "theFile s2 a = (if a = c then (theFile s c)\<lparr>mutex := relock t (mutex (theFile s c))\<rparr> else theFile s a)" for a
    using c by (simp add: s2_def)
  have file3: "theFile s3 a = (if a = c then (theFile s2 c)\<lparr>parent := None\<rparr> else theFile s2 a)" for a
    using c by (simp add: s3_def setParent_def live2)
  have file4: "theFile s4 a = (if a = h then (theFile s3 h)\<lparr>entries := entries_erase n (entries (theFile s3 h))\<rparr> else theFile s3 a)" for a
    using h by (simp add: s4_def live3)
  have gd: "getDir s3 h = Inr h"
    using h dir by (auto simp: getDir_eq_Inr live3 file3 file2)
  have run: "unlinkEntry t h n s = Handle_dtor t c s4"
    unfolding unlinkEntry_present [OF h dir n] l
    by (simp add: Let_def s3_def [symmetric] gd s4_def [symmetric])
  have len4: "length (files s4) = length (files s)"
    by (simp add: s4_def s3_def setParent_def s2_def)
  have hl: "h < length (files s)" and cl: "c < length (files s)"
    using h c by (simp_all add: live_def)
  have hold: "(holders (files s4) c = []) = (holders (files s) c = [(h, n)])"
  proof (rule holders_erased [OF len4])
    fix d assume d: "d < length (files s)"
    have "files s4 ! d = theFile s4 d" "files s ! d = theFile s d" by (simp_all add: theFile_def)
    then show "kind (files s4 ! d) = kind (files s ! d) \<and> destroyed (files s4 ! d) = destroyed (files s ! d)
        \<and> entries (files s4 ! d) = (if d = h then entries_erase n (entries (files s ! d)) else entries (files s ! d))"
      by (auto simp: file4 file3 file2)
  next
    show "h < length (files s)" by (rule hl)
    show "kind (files s ! h) = DirectoryKind" using dir by (simp add: theFile_def)
    show "\<not> destroyed (files s ! h)" using h by (simp add: live_def)
    show "entries_find n (entries (files s ! h)) = Some (Some c)" using n by (simp add: theFile_def)
  qed
  have own4: "owners (theFile s4 c) = owners (theFile s c)"
    by (auto simp: file4 file3 file2)
  have c4: "live s4 c" using c by (simp add: live4)
  have last: "\<exists>sa. unlinkEntry t h n s = Inl (UseAfterFree, sa) \<and> \<not> live sa c"
    if "owners (theFile s c) = 0 \<and> holders (files s) c = [(h, n)]"
  proof -
    from that have cond: "live s4 c \<and> owners (theFile s4 c) = 0 \<and> holders (files s4) c = []"
      using c4 by (simp add: own4 hold)
    define sd where "sd = store c ((theFile s4 c)\<lparr>destroyed := True\<rparr>) s4"
    define sa where "sa = release_all (released (theFile s4 c) @ []) sd"
    have r: "release_all [c] s4 = sa"
      by (simp add: release_all_destroy [OF cond] sa_def sd_def)
    have "destroyed (files sd ! c)"
      using cl by (simp add: sd_def len4 theFile_def)
    then have "destroyed (files sa ! c)" unfolding sa_def by (rule release_all_mono)
    then have dead: "\<not> live sa c" by (simp add: live_def)
    then have "Handle_dtor t c s4 = Inl (UseAfterFree, sa)"
      by (simp add: Handle_dtor_def reset_def r)
    with dead run show ?thesis by simp
  qed
  have other: "\<exists>s'. unlinkEntry t h n s = Inr s'
               \<and> files s' = unlink_files h n c (files s)
               \<and> log s' = log s @ [Lock c, WriteParent c None, EraseEntry h n, Unlock c]"
    if "\<not> (owners (theFile s c) = 0 \<and> holders (files s) c = [(h, n)])"
  proof -
    from that have "\<not> (live s4 c \<and> owners (theFile s4 c) = 0 \<and> holders (files s4) c = [])"
      by (simp add: own4 hold)
    then have "release_all [c] s4 = s4" by (rule release_all_noop)
    then have dt: "Handle_dtor t c s4 = Inr (unlock t c s4)"
      using c4 by (simp add: Handle_dtor_def reset_def)
    have unl: "unlink_files h n c (files s) ! a =
       (let f = (if a = c then (theFile s a)\<lparr>parent := None\<rparr> else theFile s a)
        in if a = h then f\<lparr>entries := entries_erase n (entries f)\<rparr> else f)" if "a < length (files s)" for a
      using that by (simp add: unlink_files_nth theFile_def)
    have shape: "theFile s4 c = (unlink_files h n c (files s) ! c)\<lparr>mutex := relock t (mutex (theFile s c))\<rparr>"
      using cl by (auto simp: file4 file3 file2 unl)
    have rel: "files (unlock t c s4) = (files s4)[c := (unlink_files h n c (files s) ! c)\<lparr>mutex := mutex (theFile s c)\<rparr>]"
      and rlog: "log (unlock t c s4) = log s4 @ [Unlock c]"
      using unlock_relock [OF c free shape c4] by simp_all
    have "files (unlock t c s4) = unlink_files h n c (files s)"
    proof (rule nth_equalityI)
      show "length (files (unlock t c s4)) = length (unlink_files h n c (files s))"
        by (simp add: rel len4)
    next
      fix a assume "a < length (files (unlock t c s4))"
      then have a: "a < length (files s)" by (simp add: rel len4)
      have nth4: "files s4 ! a = theFile s4 a" by (simp add: theFile_def)
      have cc: "c < length (files s4)" using cl by (simp add: len4)
      show "files (unlock t c s4) ! a = unlink_files h n c (files s) ! a"
      proof (cases "a = c")
        case True
        have "mutex (unlink_files h n c (files s) ! c) = mutex (theFile s c)"
          using cl by (auto simp: unl Let_def)
        then show ?thesis using cc True by (simp add: rel)
      next
        case False
        then show ?thesis using a by (auto simp: rel nth4 file4 file3 file2 unl Let_def)
      qed
    qed
    moreover have "log (unlock t c s4) = log s @ [Lock c, WriteParent c None, EraseEntry h n, Unlock c]"
    proof -
      have "log s4 = log s @ [Lock c, WriteParent c None, EraseEntry h n]"
        by (simp add: s4_def s3_def setParent_def s2_def)
      then show ?thesis by (simp add: rlog)
    qed
    ultimately show ?thesis using run dt by simp
  qed
  from last other show ?thesis by blast
qed

lemma unlinkEntry_Inr:
  assumes "unlinkEntry t h n s = Inr s'"
  shows "\<exists>c. live s h \<and> kind (theFile s h) = DirectoryKind
           \<and> entries_find n (entries (theFile s h)) = Some (Some c)
           \<and> live s c \<and> lockable t s c
           \<and> \<not> (owners (theFile s c) = 0 \<and> holders (files s) c = [(h, n)])
           \<and> files s' = unlink_files h n c (files s)
           \<and> log s' = log s @ [Lock c, WriteParent c None, EraseEntry h n, Unlock c]"
proof -
  from assms have h: "live s h" and dir: "kind (theFile s h) = DirectoryKind"
    by (auto simp: unlinkEntry_def bind_eq_Inr getDir_eq_Inr)
  show ?thesis
  proof (cases "entries_find n (entries (theFile s h))")
    case None
    with assms unlinkEntry_absent [OF h dir] show ?thesis by simp
  next
    case (Some p)
    show ?thesis
    proof (cases p)
      case None
      with Some assms unlinkEntry_null [OF h dir] show ?thesis by simp
    next
      case (Some c)
      with \<open>entries_find n (entries (theFile s h)) = Some p\<close>
      have n: "entries_find n (entries (theFile s h)) = Some (Some c)" by simp
      from assms obtain a s2 where "locked t (Some c) s = Inr (a, s2)"
        unfolding unlinkEntry_present [OF h dir n] by (auto simp: bind_eq_Inr)
      then have c: "live s c" and free: "lockable t s c" by (simp_all add: locked_eq_Inr)
      note r = unlinkEntry_run [OF h dir n c free, of]
      have nl: "\<not> (owners (theFile s c) = 0 \<and> holders (files s) c = [(h, n)])"
      proof
        assume "owners (theFile s c) = 0 \<and> holders (files s) c = [(h, n)]"
        with r assms show False by auto
      qed
      with r assms have "files s' = unlink_files h n c (files s)
          \<and> log s' = log s @ [Lock c, WriteParent c None, EraseEntry h n, Unlock c]"
        by auto
      with h dir n c free nl show ?thesis by blast
    qed
  qed
qed

subsection \<open>What the operations keep\<close>

lemma kept_refl [simp]: "kept s s"
  by (simp add: kept_def)

lemma kept_trans [trans]: "kept s s1 \<Longrightarrow> kept s1 s2 \<Longrightarrow> kept s s2"
  by (auto simp: kept_def)

lemma kept_emit [simp]: "kept s (emit e x) = kept s x"
  by (simp add: kept_def)

lemma kept_store:
  "kind f = kind (theFile s a) \<Longrightarrow> owners f = owners (theFile s a) \<Longrightarrow>
   destroyed f = destroyed (theFile s a) \<Longrightarrow> kept s (store a f s)"
  unfolding kept_def
proof (intro conjI allI impI)
  fix b
  assume f: "kind f = kind (theFile s a)" "owners f = owners (theFile s a)"
    "destroyed f = destroyed (theFile s a)" and b: "b < length (files s)"
  have "kind (files (store a f s) ! b) = kind (files s ! b)
      \<and> owners (files (store a f s) ! b) = owners (files s ! b)
      \<and> destroyed (files (store a f s) ! b) = destroyed (files s ! b)"
    using f b by (cases "b = a") (simp_all add: theFile_def)
  then show "kind (files (store a f s) ! b) = kind (files s ! b)"
    and "owners (files (store a f s) ! b) = owners (files s ! b)"
    and "destroyed (files s ! b) \<Longrightarrow> destroyed (files (store a f s) ! b)"
    and "destroyed (files (store a f s) ! b) = destroyed (files s ! b)"
    by simp_all
qed simp

lemma kept_release_all: "kept s (release_all xs s)"
  by (simp add: kept_def release_all_fields release_all_mono release_all_owned)

lemma kept_unlock: "kept s (unlock t a s)"
  by (auto simp: unlock_def intro!: kept_store split: option.splits)

lemma kept_setParent: "kept s (setParent a p s)"
  by (auto simp: setParent_def intro!: kept_store)

lemma kept_assign_entry: "kept s (assign_entry d n p s)"
proof -
  let ?w = "emit (WriteEntry d n p)
          (store d ((theFile s d)\<lparr>entries := entries_assign n p (entries (theFile s d))\<rparr>) s)"
  have "kept s ?w" by (auto intro!: kept_store)
  moreover have "kept ?w (assign_entry d n p s)"
    unfolding assign_entry_release by (rule kept_release_all)
  ultimately show ?thesis by (rule kept_trans)
qed

lemma kept_Handle_dtor: "Handle_dtor t a s = Inr s' \<Longrightarrow> kept s s'"
  by (auto simp: Handle_dtor_def reset_def Let_def split: if_splits
      intro: kept_trans [OF kept_release_all kept_unlock])

lemma kept_locked: "locked t p s = Inr (a, s1) \<Longrightarrow> kept s s1"
  by (auto simp: locked_eq_Inr intro!: kept_store)

lemma kept_setEntry:
  assumes "setEntry t h n p s = Inr s'"
  shows "kept s s'"
proof -
  from setEntry_Inr_steps [OF assms] obtain c s1 s2 s3 where
    l: "locked t (Some c) s = Inr (c, s1)"
    and s2: "s2 = assign_entry h n (Some c) s1"
    and s3: "s3 = setParent c (Some h) s2" and dt: "Handle_dtor t c s3 = Inr s'"
    by blast
  have "kept s s1" using l by (rule kept_locked)
  also have "kept s1 s2" unfolding s2 by (rule kept_assign_entry)
  also have "kept s2 s3" unfolding s3 by (rule kept_setParent)
  also have "kept s3 s'" using dt by (rule kept_Handle_dtor)
  finally show ?thesis .
qed

lemma kept_unlinkEntry:
  assumes "unlinkEntry t h n s = Inr s'"
  shows "kept s s'"
proof -
  from unlinkEntry_Inr [OF assms] obtain c where "files s' = unlink_files h n c (files s)"
    by blast
  then show ?thesis by (simp add: kept_def)
qed

lemma kept_apply_op: "apply_op x s = Inr s' \<Longrightarrow> kept s s'"
  by (cases x) (simp_all add: kept_setEntry kept_unlinkEntry)

lemma kept_apply_ops: "apply_ops xs s = Inr s' \<Longrightarrow> kept s s'"
proof (induction xs arbitrary: s)
  case Nil
  then show ?case by simp
next
  case (Cons x xs)
  then obtain s1 where one: "apply_op x s = Inr s1" and rest: "apply_ops xs s1 = Inr s'"
    by (auto simp: bind_eq_Inr)
  from kept_apply_op [OF one] Cons.IH [OF rest] show ?case by (rule kept_trans)
qed

subsection \<open>Well-formed arenas\<close>

text \<open>
  The two operations keep the entry map of every live directory ordered and every pointer
  in it owning a live node: what the theorems on \<open>getName\<close> and \<open>unlinkEntry\<close> ask
  of the directory holds in every arena that the operations build from one where it
  holds, such as \<open>heap0\<close>.
\<close>

lemma ordered_Cons:
  "ordered ((k, v) # es) = ((\<forall>e\<in>set es. k < fst e) \<and> ordered es)"
  by (auto simp: ordered_def)

lemma getName_loop_found:
  "ordered es \<Longrightarrow> entries_find n es = Some target \<Longrightarrow>
   entries_find (getName_loop target es) es = Some target \<and> getName_loop target es \<le> n"
proof (induction es)
  case Nil
  then show ?case by simp
next
  case (Cons e es)
  obtain k v where e: "e = (k, v)" by (cases e)
  from Cons.prems(1) have above: "\<forall>e\<in>set es. k < fst e" and ord: "ordered es"
    by (simp_all add: e ordered_Cons)
  show ?case
  proof (cases "v = target")
    case True
    have "k \<le> n"
    proof (cases "n = k")
      case False
      with Cons.prems(2) have "entries_find n es = Some target" by (simp add: e)
      then have "(n, target) \<in> set es" by (rule find_mem)
      with above show ?thesis by force
    qed simp
    with True show ?thesis by (simp add: e)
  next
    case False
    with Cons.prems(2) have n: "entries_find n es = Some target"
      by (auto simp: e split: if_splits)
    from Cons.IH [OF ord n] have found: "entries_find (getName_loop target es) es = Some target"
      and least: "getName_loop target es \<le> n" by simp_all
    from find_mem [OF found] above have "k < getName_loop target es" by force
    with False found least show ?thesis by (simp add: e)
  qed
qed

lemma mem_find:
  "ordered es \<Longrightarrow> (n, v) \<in> set es \<Longrightarrow> entries_find n es = Some v"
proof (induction es)
  case Nil
  then show ?case by simp
next
  case (Cons e es)
  obtain k w where e: "e = (k, w)" by (cases e)
  from Cons.prems(1) have above: "\<forall>e\<in>set es. k < fst e" and ord: "ordered es"
    by (simp_all add: e ordered_Cons)
  show ?case
  proof (cases "(n, v) = (k, w)")
    case True
    then show ?thesis by (simp add: e)
  next
    case False
    with Cons.prems(2) have mem: "(n, v) \<in> set es" by (auto simp: e)
    with above have "k < n" by force
    then have "n \<noteq> k" by simp
    with Cons.IH [OF ord mem] show ?thesis by (simp add: e)
  qed
qed

lemma getName_loop_missing:
  "\<forall>e\<in>set es. snd e \<noteq> target \<Longrightarrow> getName_loop target es = ''''"
  by (induction es) auto
lemma set_assign: "set (entries_assign k v es) \<subseteq> insert (k, v) (set es)"
  by (induction es) (auto split: if_splits)

lemma ordered_assign: "ordered es \<Longrightarrow> ordered (entries_assign k v es)"
proof (induction es)
  case Nil
  then show ?case by (simp add: ordered_def)
next
  case (Cons e es)
  obtain k' v' where e: "e = (k', v')" by (cases e)
  from Cons.prems have above: "\<forall>x\<in>set es. k' < fst x" and ord: "ordered es"
    by (simp_all add: e ordered_Cons)
  show ?case
  proof (cases "k = k'")
    case True
    with above ord show ?thesis by (simp add: e ordered_Cons)
  next
    case False
    show ?thesis
    proof (cases "k < k'")
      case True
      with above ord False show ?thesis by (auto simp: e ordered_Cons)
    next
      case nless: False
      with False have "k' < k" by simp
      moreover have "\<forall>x\<in>set (entries_assign k v es). fst x = k \<or> x \<in> set es"
        using set_assign [of k v es] by auto
      ultimately have "\<forall>x\<in>set (entries_assign k v es). k' < fst x"
        using above by auto
      with Cons.IH [OF ord] False nless show ?thesis by (simp add: e ordered_Cons)
    qed
  qed
qed

lemma set_erase: "set (entries_erase k es) \<subseteq> set es"
  by (induction es) (auto split: if_splits)

lemma ordered_erase: "ordered es \<Longrightarrow> ordered (entries_erase k es)"
proof (induction es)
  case Nil
  then show ?case by simp
next
  case (Cons e es)
  obtain k' v' where e: "e = (k', v')" by (cases e)
  from Cons.prems have above: "\<forall>x\<in>set es. k' < fst x" and ord: "ordered es"
    by (simp_all add: e ordered_Cons)
  from above set_erase [of k es] have "\<forall>x\<in>set (entries_erase k es). k' < fst x" by auto
  with Cons.IH [OF ord] ord show ?case by (simp add: e ordered_Cons)
qed

lemma wellformed_iff:
  "wellformed s = (\<forall>a<length (files s).
      kind (files s ! a) = DirectoryKind \<and> \<not> destroyed (files s ! a) \<longrightarrow>
      ordered (entries (files s ! a))
      \<and> (\<forall>e\<in>set (entries (files s ! a)). owning (files s) (snd e)))"
  unfolding wellformed_def list_all_iff all_set_conv_all_nth by simp

lemma owning_live: "owning (files s) p = (\<exists>a. p = Some a \<and> live s a)"
  by (cases p) (simp_all add: owning_def live_def)

lemma wellformed_cong:
  assumes "length (files s') = length (files s)"
    and "\<And>a. a < length (files s) \<Longrightarrow> kind (files s' ! a) = kind (files s ! a)
        \<and> destroyed (files s' ! a) = destroyed (files s ! a)
        \<and> entries (files s' ! a) = entries (files s ! a)"
  shows "wellformed s' = wellformed s"
proof -
  have "owning (files s') p = owning (files s) p" for p
    using assms by (cases p) (auto simp: owning_def)
  then show ?thesis using assms by (simp add: wellformed_iff)
qed

lemma wellformed_store:
  "kind f = kind (theFile s a) \<Longrightarrow> destroyed f = destroyed (theFile s a) \<Longrightarrow>
   entries f = entries (theFile s a) \<Longrightarrow> wellformed (store a f s) = wellformed s"
proof (rule wellformed_cong)
  fix b
  assume "kind f = kind (theFile s a)" "destroyed f = destroyed (theFile s a)"
    "entries f = entries (theFile s a)" "b < length (files s)"
  then show "kind (files (store a f s) ! b) = kind (files s ! b)
        \<and> destroyed (files (store a f s) ! b) = destroyed (files s ! b)
        \<and> entries (files (store a f s) ! b) = entries (files s ! b)"
    by (cases "b = a") (simp_all add: theFile_def)
qed simp

lemma wellformed_emit [simp]: "wellformed (emit e s) = wellformed s"
  by (simp add: wellformed_def)

lemma wellformed_unlock: "wellformed (unlock t a s) = wellformed s"
  by (auto simp: unlock_def wellformed_store split: option.splits)

lemma wellformed_setParent: "wellformed (setParent a p s) = wellformed s"
  by (simp add: setParent_def wellformed_store)

lemma wellformed_release_all: "wellformed s \<Longrightarrow> wellformed (release_all xs s)"
proof (induction xs s rule: release_all.induct)
  case (1 s)
  then show ?case by simp
next
  case (2 x xs s)
  show ?case
  proof (cases "live s x \<and> owners (theFile s x) = 0 \<and> holders (files s) x = []")
    case True
    define sd where "sd = store x ((theFile s x)\<lparr>destroyed := True\<rparr>) s"
    have x: "x < length (files s)" using True by (simp add: live_def)
    have len: "length (files sd) = length (files s)" by (simp add: sd_def)
    have atx: "destroyed (files sd ! x)" using x by (simp add: sd_def)
    have off: "files sd ! a = files s ! a" if "a \<noteq> x" for a
      using that by (simp add: sd_def)
    have "wellformed sd"
      unfolding wellformed_iff
    proof (intro allI impI conjI ballI)
      fix a assume a: "a < length (files sd)"
        and d: "kind (files sd ! a) = DirectoryKind \<and> \<not> destroyed (files sd ! a)"
      then have ne: "a \<noteq> x" using atx by auto
      then have same: "files sd ! a = files s ! a" by (rule off)
      from a have al: "a < length (files s)" by (simp add: len)
      from d have d': "kind (files s ! a) = DirectoryKind \<and> \<not> destroyed (files s ! a)"
        by (simp add: same)
      from "2.prems" al d' have ord: "ordered (entries (files s ! a))"
        and own: "\<forall>e\<in>set (entries (files s ! a)). owning (files s) (snd e)"
        by (simp_all add: wellformed_iff)
      show "ordered (entries (files sd ! a))" using ord by (simp add: same)
      fix e assume "e \<in> set (entries (files sd ! a))"
      then have e: "e \<in> set (entries (files s ! a))" by (simp add: same)
      with own obtain b where b: "snd e = Some b" and lb: "live s b"
        by (auto simp: owning_live)
      have "(fst e, Some b) \<in> set (entries (theFile s a))"
        using e b by (simp add: theFile_def) (metis prod.collapse)
      then have "(a, fst e) \<in> set (holders (files s) b)"
        using al d' by (intro holders_entry) (simp_all add: live_def theFile_def)
      with True have "b \<noteq> x" by auto
      then have "live sd b" using lb by (simp add: live_def len off)
      then show "owning (files sd) (snd e)" using b by (simp add: owning_live)
    qed
    from "2.IH"(1) [OF True this [unfolded sd_def]] show ?thesis by (simp add: release_all_destroy [OF True])
  next
    case False
    with "2.IH"(2) [OF False] "2.prems" show ?thesis by (simp add: release_all_skip)
  qed
qed

lemma wellformed_assign_entry:
  assumes wf: "wellformed s" and h: "live s h" and c: "live s c"
  shows "wellformed (assign_entry h n (Some c) s)"
proof -
  define w where "w = store h ((theFile s h)\<lparr>entries := entries_assign n (Some c) (entries (theFile s h))\<rparr>) s"
  have hl: "h < length (files s)" using h by (simp add: live_def)
  have len: "length (files w) = length (files s)" by (simp add: w_def)
  have ath: "files w ! h = (files s ! h)\<lparr>entries := entries_assign n (Some c) (entries (files s ! h))\<rparr>"
    using hl by (simp add: w_def theFile_def)
  have off: "files w ! a = files s ! a" if "a \<noteq> h" for a
    using that by (simp add: w_def)
  have "wellformed w"
    unfolding wellformed_iff
  proof (intro allI impI conjI ballI)
    fix a assume a: "a < length (files w)"
      and d: "kind (files w ! a) = DirectoryKind \<and> \<not> destroyed (files w ! a)"
    from a have al: "a < length (files s)" by (simp add: len)
    have ent: "entries (files w ! a)
        = (if a = h then entries_assign n (Some c) (entries (files s ! a)) else entries (files s ! a))"
      by (cases "a = h") (simp_all add: ath off)
    from d have d': "kind (files s ! a) = DirectoryKind \<and> \<not> destroyed (files s ! a)"
      by (cases "a = h") (simp_all add: ath off)
    from wf al d' have ord: "ordered (entries (files s ! a))"
      and own: "\<forall>e\<in>set (entries (files s ! a)). owning (files s) (snd e)"
      by (simp_all add: wellformed_iff)
    have lv: "live w b = live s b" for b
      by (cases "b = h") (simp_all add: live_def len ath off)
    show "ordered (entries (files w ! a))"
      using ord ordered_assign [OF ord, of n "Some c"] by (auto simp: ent)
    fix e assume "e \<in> set (entries (files w ! a))"
    then have "e = (n, Some c) \<or> e \<in> set (entries (files s ! a))"
      using set_assign [of n "Some c" "entries (files s ! a)"] by (auto simp: ent split: if_splits)
    then have "\<exists>b. snd e = Some b \<and> live s b"
      using own c by (auto simp: owning_live)
    then show "owning (files w) (snd e)"
      unfolding owning_live lv .
  qed
  then have "wellformed (release_all xs (emit (WriteEntry h n (Some c)) w))" for xs
    by (intro wellformed_release_all) simp
  then show ?thesis by (simp add: assign_entry_release w_def)
qed

lemma wellformed_Handle_dtor:
  "wellformed s \<Longrightarrow> Handle_dtor t a s = Inr s' \<Longrightarrow> wellformed s'"
  by (auto simp: Handle_dtor_def reset_def Let_def wellformed_unlock wellformed_release_all
      split: if_splits)

lemma wellformed_setEntry:
  assumes wf: "wellformed s" and run: "setEntry t h n p s = Inr s'"
  shows "wellformed s'"
proof -
  from setEntry_Inr_steps [OF run] obtain c s1 s2 s3 where
    l: "locked t (Some c) s = Inr (c, s1)" and gd: "getDir s1 h = Inr h"
    and s2: "s2 = assign_entry h n (Some c) s1"
    and s3: "s3 = setParent c (Some h) s2" and dt: "Handle_dtor t c s3 = Inr s'"
    by blast
  from l have c: "live s c"
    and s1: "s1 = emit (Lock c) (store c ((theFile s c)\<lparr>mutex := relock t (mutex (theFile s c))\<rparr>) s)"
    by (simp_all add: locked_eq_Inr)
  have wf1: "wellformed s1" using wf by (simp add: s1 wellformed_store)
  have c1: "live s1 c" using c by (simp add: s1)
  from gd have h1: "live s1 h" by (simp add: getDir_eq_Inr)
  have "wellformed s2" unfolding s2 using wf1 h1 c1 by (rule wellformed_assign_entry)
  then have "wellformed s3" by (simp add: s3 wellformed_setParent)
  then show ?thesis using dt by (rule wellformed_Handle_dtor)
qed

lemma wellformed_unlinkEntry:
  assumes wf: "wellformed s" and run: "unlinkEntry t h n s = Inr s'"
  shows "wellformed s'"
proof -
  from unlinkEntry_Inr [OF run] obtain c where fs: "files s' = unlink_files h n c (files s)"
    by blast
  have own: "owning (unlink_files h n c (files s)) p = owning (files s) p" for p
    by (cases p) (auto simp: owning_def)
  show ?thesis
    unfolding wellformed_iff fs
  proof (intro allI impI conjI ballI)
    fix a assume "a < length (unlink_files h n c (files s))"
      and d: "kind (unlink_files h n c (files s) ! a) = DirectoryKind
          \<and> \<not> destroyed (unlink_files h n c (files s) ! a)"
    then have a: "a < length (files s)" by simp
    with d have d': "kind (files s ! a) = DirectoryKind \<and> \<not> destroyed (files s ! a)" by simp
    from wf a d' have ord: "ordered (entries (files s ! a))"
      and ow: "\<forall>e\<in>set (entries (files s ! a)). owning (files s) (snd e)"
      by (simp_all add: wellformed_iff)
    have ent: "entries (unlink_files h n c (files s) ! a)
        = (if a = h then entries_erase n (entries (files s ! a)) else entries (files s ! a))"
      using a by (simp add: unlink_files_nth Let_def)
    show "ordered (entries (unlink_files h n c (files s) ! a))"
      using ord ordered_erase [OF ord, of n] by (auto simp: ent)
    fix e assume "e \<in> set (entries (unlink_files h n c (files s) ! a))"
    then have "e \<in> set (entries (files s ! a))"
      using set_erase [of n "entries (files s ! a)"] by (auto simp: ent split: if_splits)
    then show "owning (unlink_files h n c (files s)) (snd e)"
      using ow by (simp add: own)
  qed
qed

lemma wellformed_apply_op:
  "wellformed s \<Longrightarrow> apply_op x s = Inr s' \<Longrightarrow> wellformed s'"
  by (cases x) (auto intro: wellformed_setEntry wellformed_unlinkEntry)

lemma wellformed_apply_ops:
  "wellformed s \<Longrightarrow> apply_ops xs s = Inr s' \<Longrightarrow> wellformed s'"
proof (induction xs arbitrary: s)
  case Nil
  then show ?case by simp
next
  case (Cons x xs)
  from Cons.prems(2) obtain s1 where one: "apply_op x s = Inr s1" and rest: "apply_ops xs s1 = Inr s'"
    by (auto simp: bind_eq_Inr)
  from Cons.IH [OF wellformed_apply_op [OF Cons.prems(1) one] rest] show ?case .
qed

lemma wellformed_heap0: "wellformed heap0"
  by code_simp

subsection \<open>The claims on directories\<close>

text \<open>
  C1, amended. On the handle of a directory \<open>h\<close> that its caller owns, and a live child
  \<open>c\<close>: a call that cannot take the mutex of \<open>c\<close> waits, with nothing written. When
  it can, and \<open>c\<close> has no parent, \<open>setEntry\<close> returns, the entry map of \<open>h\<close> maps
  the name to \<open>c\<close>, the parent of \<open>c\<close> resolves to \<open>h\<close>, the mutex of \<open>c\<close> is as
  it was, and both writes lie between the lock and the unlock of the child. The calling
  thread holds the mutex of \<open>c\<close> from the lock on, over the write of the entry and the
  write of the parent, and no other thread can take it in between. The assertion comes
  after the write of the entry and before the write of the parent: it reads the arena in
  which the entry is written and what the entry held before has been let go of. When the
  parent of \<open>c\<close> resolves there, the call aborts, in that arena; when it does not, the
  parent is written. When the name displaces no other child, the parent resolves there
  exactly when it resolved at the call.
\<close>

theorem setEntry_links:
  assumes h: "live s h" and dir: "kind (theFile s h) = DirectoryKind"
    and own: "0 < owners (theFile s h)" and c: "live s c"
  shows "(\<not> lockable t s c \<longrightarrow> setEntry t h n (Some c) s = Inl (Blocked, s))
    \<and> (lockable t s c \<and> getParent s c = None \<longrightarrow>
         (\<exists>s'. setEntry t h n (Some c) s = Inr s'
            \<and> entries_find n (entries (theFile s' h)) = Some (Some c)
            \<and> getParent s' c = Some h
            \<and> mutex (theFile s' c) = mutex (theFile s c)
            \<and> log s' = log s @ [Lock c, WriteEntry h n (Some c), WriteParent c (Some h), Unlock c]))
    \<and> (lockable t s c \<longrightarrow>
         (\<exists>s1 s2. locked t (Some c) s = Inr (c, s1) \<and> s2 = assign_entry h n (Some c) s1
            \<and> held t s1 c \<and> held t s2 c
            \<and> (\<forall>t'. t' \<noteq> t \<longrightarrow> locked t' (Some c) s2 = Inl (Blocked, s2))
            \<and> entries_find n (entries (theFile s2 h)) = Some (Some c)
            \<and> parent (theFile s2 c) = parent (theFile s c)
            \<and> ((\<forall>x. entries_find n (entries (theFile s h)) = Some (Some x) \<longrightarrow> x = c)
                 \<longrightarrow> getParent s2 c = getParent s c)
            \<and> (getParent s2 c \<noteq> None \<longrightarrow> setEntry t h n (Some c) s = Inl (AssertionFailed, s2))
            \<and> (getParent s2 c = None \<longrightarrow>
                 (\<exists>s3. s3 = setParent c (Some h) s2 \<and> held t s3 c
                    \<and> entries_find n (entries (theFile s3 h)) = Some (Some c)
                    \<and> getParent s3 c = Some h
                    \<and> setEntry t h n (Some c) s = Inr (unlock t c s3)))))"
proof -
  have blocked: "setEntry t h n (Some c) s = Inl (Blocked, s)" if "\<not> lockable t s c"
    using locked_blocked [OF c that] by (simp add: setEntry_def)
  define s1 where "s1 = emit (Lock c) (store c ((theFile s c)\<lparr>mutex := relock t (mutex (theFile s c))\<rparr>) s)"
  define w where "w = emit (WriteEntry h n (Some c))
      (store h ((theFile s1 h)\<lparr>entries := entries_assign n (Some c) (entries (theFile s1 h))\<rparr>) s1)"
  define xs where "xs = (case entries_find n (entries (theFile s1 h)) of Some (Some x) \<Rightarrow> [x] | _ \<Rightarrow> [])"
  define s2 where "s2 = release_all xs w"
  define s3 where "s3 = setParent c (Some h) s2"
  have a2: "assign_entry h n (Some c) s1 = s2"
    by (simp add: assign_entry_release s2_def xs_def w_def)
  have live1: "live s1 a = live s a" for a by (simp add: s1_def)
  have file1: "theFile s1 a = (if a = c then (theFile s c)\<lparr>mutex := relock t (mutex (theFile s c))\<rparr> else theFile s a)" for a
    using c by (simp add: s1_def)
  have livew: "live w a = live s a" for a by (simp add: w_def live1)
  have filew: "theFile w a = (if a = h then (theFile s1 h)\<lparr>entries := entries_assign n (Some c) (entries (theFile s1 h))\<rparr> else theFile s1 a)" for a
    using h by (simp add: w_def live1)
  have gd: "getDir s1 h = Inr h"
    using h dir by (auto simp: getDir_eq_Inr live1 file1)
  have f2: "kind (theFile s2 a) = kind (theFile w a)" "parent (theFile s2 a) = parent (theFile w a)"
    "mutex (theFile s2 a) = mutex (theFile w a)" "entries (theFile s2 a) = entries (theFile w a)"
    "owners (theFile s2 a) = owners (theFile w a)" for a
    by (simp_all add: s2_def theFile_def release_all_fields)
  have entw: "entries_find n (entries (theFile w h)) = Some (Some c)"
    by (auto simp: filew)
  have ownw: "0 < owners (theFile w h)" using own by (auto simp: filew file1)
  have dirw: "kind (theFile w h) = DirectoryKind" using dir by (auto simp: filew file1)
  have live2h: "live s2 h"
  proof -
    have "live w h" using h by (simp add: livew)
    then show ?thesis
      using ownw release_all_owned [of w h xs] by (simp add: live_def s2_def theFile_def)
  qed
  have live2c: "live s2 c"
    unfolding s2_def
    using livew [of h] h ownw dirw find_mem [OF entw] livew [of c] c
    by (intro release_all_keeps [where h = h and n = n]) simp_all
  have held1: "held t s1 c" by (simp add: held_def file1)
  have mut2: "mutex (theFile s2 c) = relock t (mutex (theFile s c))"
    by (auto simp: f2 filew file1)
  have held2: "held t s2 c" by (simp add: held_def mut2)
  have others: "locked t' (Some c) s2 = Inl (Blocked, s2)" if "t' \<noteq> t" for t'
    using live2c held2 that by (rule held_blocks)
  have ent2: "entries_find n (entries (theFile s2 h)) = Some (Some c)"
    by (auto simp: f2 entw)
  have par2: "parent (theFile s2 c) = parent (theFile s c)"
    by (auto simp: f2 filew file1)
  have dead2: "\<not> live s2 a" if "\<not> live s a" for a
    using that livew [of a] release_all_mono [of w a xs]
    by (auto simp: live_def s2_def)
  have orphan2: "getParent s2 c = None" if "getParent s c = None"
    using that dead2 by (auto simp: getParent_def par2 split: option.splits if_splits)
  have same2: "getParent s2 c = getParent s c"
    if free: "\<forall>x. entries_find n (entries (theFile s h)) = Some (Some x) \<longrightarrow> x = c"
  proof -
    have ent1: "entries (theFile s1 h) = entries (theFile s h)" by (simp add: file1)
    have "release_all xs w = w"
    proof (cases "entries_find n (entries (theFile s h))")
      case None
      then show ?thesis by (simp add: xs_def ent1)
    next
      case (Some q)
      show ?thesis
      proof (cases q)
        case None
        with Some show ?thesis by (simp add: xs_def ent1)
      next
        case (Some x)
        with \<open>entries_find n (entries (theFile s h)) = Some q\<close> free have xc: "xs = [c]"
          by (simp add: xs_def ent1)
        have "(h, n) \<in> set (holders (files w) c)"
          using h dirw find_mem [OF entw] by (intro holders_entry) (simp_all add: livew)
        then have "holders (files w) c \<noteq> []" by auto
        then show ?thesis unfolding xc by (intro release_all_noop) simp
      qed
    qed
    then have "s2 = w" by (simp add: s2_def)
    then show ?thesis
      by (auto simp: getParent_def filew file1 livew split: option.splits)
  qed
  have live3: "live s3 a = live s2 a" for a by (simp add: s3_def setParent_def)
  have file3: "theFile s3 a = (if a = c then (theFile s2 c)\<lparr>parent := Some h\<rparr> else theFile s2 a)" for a
    using live2c by (simp add: s3_def setParent_def)
  have held3: "held t s3 c" by (auto simp: held_def file3 mut2)
  have ent3: "entries_find n (entries (theFile s3 h)) = Some (Some c)"
    using ent2 by (auto simp: file3)
  have par3: "getParent s3 c = Some h"
    using live2h by (auto simp: getParent_def file3 live3)
  have dir3: "kind (theFile s3 h) = DirectoryKind"
    using dirw by (auto simp: file3 f2)
  have "(h, n) \<in> set (holders (files s3) c)"
    using live2h dir3 find_mem [OF ent3] by (intro holders_entry) (simp_all add: live3)
  then have "holders (files s3) c \<noteq> []" by auto
  then have keep: "release_all [c] s3 = s3" by (intro release_all_noop) simp
  have dtor: "Handle_dtor t c s3 = Inr (unlock t c s3)"
    using live2c by (simp add: Handle_dtor_def reset_def keep live3)
  have abort: "setEntry t h n (Some c) s = Inl (AssertionFailed, s2)"
    if "lockable t s c" and "getParent s2 c \<noteq> None"
  proof -
    have l: "locked t (Some c) s = Inr (c, s1)"
      using c that(1) by (simp add: locked_eq_Inr s1_def)
    show ?thesis unfolding setEntry_def l using that(2) by (simp add: gd a2)
  qed
  have run: "setEntry t h n (Some c) s = Inr (unlock t c s3)"
    if "lockable t s c" and "getParent s2 c = None"
  proof -
    have l: "locked t (Some c) s = Inr (c, s1)"
      using c that(1) by (simp add: locked_eq_Inr s1_def)
    show ?thesis unfolding setEntry_def l using that(2) by (simp add: gd a2 s3_def [symmetric] dtor)
  qed
  have final: "entries_find n (entries (theFile (unlock t c s3) h)) = Some (Some c)
      \<and> getParent (unlock t c s3) c = Some h
      \<and> mutex (theFile (unlock t c s3) c) = mutex (theFile s c)
      \<and> log (unlock t c s3) = log s @ [Lock c, WriteEntry h n (Some c), WriteParent c (Some h), Unlock c]"
    if free: "lockable t s c"
  proof -
    have shape: "theFile s3 c = (theFile s3 c)\<lparr>mutex := relock t (mutex (theFile s c))\<rparr>"
      by (auto simp: file3 mut2 [symmetric])
    have c3: "live s3 c" using live2c by (simp add: live3)
    have rel: "files (unlock t c s3) = (files s3)[c := (theFile s3 c)\<lparr>mutex := mutex (theFile s c)\<rparr>]"
      and rlog: "log (unlock t c s3) = log s3 @ [Unlock c]"
      using unlock_relock [OF c free shape c3] by simp_all
    have cc: "c < length (files s3)" using c3 by (simp add: live_def)
    have fileu: "theFile (unlock t c s3) a
        = (if a = c then (theFile s3 c)\<lparr>mutex := mutex (theFile s c)\<rparr> else theFile s3 a)" for a
      using cc by (simp add: theFile_def rel)
    have liveu: "live (unlock t c s3) a = live s3 a" for a
      using cc by (cases "a = c") (simp_all add: live_def rel theFile_def)
    have "log s3 = log s @ [Lock c, WriteEntry h n (Some c), WriteParent c (Some h)]"
      by (simp add: s3_def setParent_def s2_def w_def s1_def)
    then have "log (unlock t c s3) = log s @ [Lock c, WriteEntry h n (Some c), WriteParent c (Some h), Unlock c]"
      by (simp add: rlog)
    moreover have "entries_find n (entries (theFile (unlock t c s3) h)) = Some (Some c)"
      using ent3 by (auto simp: fileu)
    moreover have "getParent (unlock t c s3) c = Some h"
      using live2h by (auto simp: getParent_def fileu liveu live3 file3)
    moreover have "mutex (theFile (unlock t c s3) c) = mutex (theFile s c)"
      by (auto simp: fileu)
    ultimately show ?thesis by simp
  qed
  have first: "\<not> lockable t s c \<longrightarrow> setEntry t h n (Some c) s = Inl (Blocked, s)"
    using blocked by simp
  have second: "lockable t s c \<and> getParent s c = None \<longrightarrow>
         (\<exists>s'. setEntry t h n (Some c) s = Inr s'
            \<and> entries_find n (entries (theFile s' h)) = Some (Some c)
            \<and> getParent s' c = Some h
            \<and> mutex (theFile s' c) = mutex (theFile s c)
            \<and> log s' = log s @ [Lock c, WriteEntry h n (Some c), WriteParent c (Some h), Unlock c])"
  proof (intro impI, elim conjE)
    assume free: "lockable t s c" and orphan: "getParent s c = None"
    from run [OF free orphan2 [OF orphan]] final [OF free]
    show "\<exists>s'. setEntry t h n (Some c) s = Inr s'
            \<and> entries_find n (entries (theFile s' h)) = Some (Some c)
            \<and> getParent s' c = Some h
            \<and> mutex (theFile s' c) = mutex (theFile s c)
            \<and> log s' = log s @ [Lock c, WriteEntry h n (Some c), WriteParent c (Some h), Unlock c]"
      by (intro exI [of _ "unlock t c s3"]) simp
  qed
  have third: "lockable t s c \<longrightarrow>
         (\<exists>s1 s2. locked t (Some c) s = Inr (c, s1) \<and> s2 = assign_entry h n (Some c) s1
            \<and> held t s1 c \<and> held t s2 c
            \<and> (\<forall>t'. t' \<noteq> t \<longrightarrow> locked t' (Some c) s2 = Inl (Blocked, s2))
            \<and> entries_find n (entries (theFile s2 h)) = Some (Some c)
            \<and> parent (theFile s2 c) = parent (theFile s c)
            \<and> ((\<forall>x. entries_find n (entries (theFile s h)) = Some (Some x) \<longrightarrow> x = c)
                 \<longrightarrow> getParent s2 c = getParent s c)
            \<and> (getParent s2 c \<noteq> None \<longrightarrow> setEntry t h n (Some c) s = Inl (AssertionFailed, s2))
            \<and> (getParent s2 c = None \<longrightarrow>
                 (\<exists>s3. s3 = setParent c (Some h) s2 \<and> held t s3 c
                    \<and> entries_find n (entries (theFile s3 h)) = Some (Some c)
                    \<and> getParent s3 c = Some h
                    \<and> setEntry t h n (Some c) s = Inr (unlock t c s3))))"
  proof
    assume free: "lockable t s c"
    have k1: "locked t (Some c) s = Inr (c, s1)"
      using c free by (simp add: locked_eq_Inr s1_def)
    have k2: "s2 = assign_entry h n (Some c) s1" by (simp add: a2)
    have k5: "\<forall>t'. t' \<noteq> t \<longrightarrow> locked t' (Some c) s2 = Inl (Blocked, s2)"
      using others by simp
    have k8: "(\<forall>x. entries_find n (entries (theFile s h)) = Some (Some x) \<longrightarrow> x = c)
                 \<longrightarrow> getParent s2 c = getParent s c"
      using same2 by simp
    have k9: "getParent s2 c \<noteq> None \<longrightarrow> setEntry t h n (Some c) s = Inl (AssertionFailed, s2)"
      using abort [OF free] by simp
    have k10: "getParent s2 c = None \<longrightarrow>
                 (\<exists>s3. s3 = setParent c (Some h) s2 \<and> held t s3 c
                    \<and> entries_find n (entries (theFile s3 h)) = Some (Some c)
                    \<and> getParent s3 c = Some h
                    \<and> setEntry t h n (Some c) s = Inr (unlock t c s3))"
    proof
      assume "getParent s2 c = None"
      from run [OF free this] held3 ent3 par3
      show "\<exists>s3. s3 = setParent c (Some h) s2 \<and> held t s3 c
                    \<and> entries_find n (entries (theFile s3 h)) = Some (Some c)
                    \<and> getParent s3 c = Some h
                    \<and> setEntry t h n (Some c) s = Inr (unlock t c s3)"
        by (simp add: s3_def)
    qed
    show "\<exists>s1 s2. locked t (Some c) s = Inr (c, s1) \<and> s2 = assign_entry h n (Some c) s1
            \<and> held t s1 c \<and> held t s2 c
            \<and> (\<forall>t'. t' \<noteq> t \<longrightarrow> locked t' (Some c) s2 = Inl (Blocked, s2))
            \<and> entries_find n (entries (theFile s2 h)) = Some (Some c)
            \<and> parent (theFile s2 c) = parent (theFile s c)
            \<and> ((\<forall>x. entries_find n (entries (theFile s h)) = Some (Some x) \<longrightarrow> x = c)
                 \<longrightarrow> getParent s2 c = getParent s c)
            \<and> (getParent s2 c \<noteq> None \<longrightarrow> setEntry t h n (Some c) s = Inl (AssertionFailed, s2))
            \<and> (getParent s2 c = None \<longrightarrow>
                 (\<exists>s3. s3 = setParent c (Some h) s2 \<and> held t s3 c
                    \<and> entries_find n (entries (theFile s3 h)) = Some (Some c)
                    \<and> getParent s3 c = Some h
                    \<and> setEntry t h n (Some c) s = Inr (unlock t c s3)))"
      by (intro exI [of _ s1] exI [of _ s2] conjI)
         (rule k1 k2 held1 held2 k5 ent2 par2 k8 k9 k10)+
  qed
  show ?thesis by (rule conjI [OF first conjI [OF second third]])
qed

text \<open>The definitions a concrete run unfolds.\<close>

lemmas eval_defs = setEntry_def unlinkEntry_def locked_def getDir_def getParent_def unlock_def
  setParent_def File_new_def DataFile_new_def Directory_new_def live_def theFile_def store_def
  emit_def Let_def lockable_def entries_subscript_def

theorem setEntry_links_witness:
  "live heap0 0 \<and> kind (theFile heap0 0) = DirectoryKind \<and> 0 < owners (theFile heap0 0)
   \<and> live heap0 1 \<and> lockable 7 heap0 1 \<and> getParent heap0 1 = None
   \<and> (\<exists>s'. setEntry 7 0 ''a'' (Some 1) heap0 = Inr s'
          \<and> entries_find ''a'' (entries (theFile s' 0)) = Some (Some 1)
          \<and> getParent s' 1 = Some 0
          \<and> mutex (theFile s' 1) = mutex (theFile heap0 1)
          \<and> log s' = log heap0 @ [Lock 1, WriteEntry 0 ''a'' (Some 1), WriteParent 1 (Some 0), Unlock 1])"
proof -
  have a: "live heap0 0" and b: "kind (theFile heap0 0) = DirectoryKind"
    and o: "0 < owners (theFile heap0 0)"
    and c: "live heap0 1" and d: "lockable 7 heap0 1" and e: "getParent heap0 1 = None"
    by (simp_all add: heap0_def eval_defs)
  from setEntry_links [OF a b o c, of 7 "''a''"] d e
  have "\<exists>s'. setEntry 7 0 ''a'' (Some 1) heap0 = Inr s'
          \<and> entries_find ''a'' (entries (theFile s' 0)) = Some (Some 1)
          \<and> getParent s' 1 = Some 0
          \<and> mutex (theFile s' 1) = mutex (theFile heap0 1)
          \<and> log s' = log heap0 @ [Lock 1, WriteEntry 0 ''a'' (Some 1), WriteParent 1 (Some 0), Unlock 1]"
    by blast
  with a b o c d e show ?thesis by blast
qed

text \<open>
  C1, as stated, fails in its last clause: the assertion does not come before the
  linking. In \<open>heap4\<close> the file at 2 has a parent, the directory at 1, and \<open>setEntry\<close>
  of the file under the name that holds this directory returns: the entry is written
  first, the directory loses its last owner and is destroyed, and the assertion finds the
  parent of the file expired. In \<open>heap1\<close>, where \<open>setEntry\<close> of the file at 1 under a
  new name fails the assertion, the entry is in the map when it fails.
\<close>

theorem setEntry_assert_counterexample:
  "live heap4 0 \<and> kind (theFile heap4 0) = DirectoryKind \<and> 0 < owners (theFile heap4 0)
   \<and> live heap4 2 \<and> lockable 7 heap4 2
   \<and> getParent heap4 2 = Some 1
   \<and> setEntry 7 0 ''a'' (Some 2) heap4 = Inr heap5
   \<and> entries_find ''a'' (entries (theFile heap5 0)) = Some (Some 2)
   \<and> getParent heap5 2 = Some 0
   \<and> getParent heap1 1 = Some 0
   \<and> entries_find ''b'' (entries (theFile heap1 0)) = None
   \<and> setEntry 7 0 ''b'' (Some 1) heap1 = Inl (AssertionFailed, heap6)
   \<and> entries_find ''b'' (entries (theFile heap6 0)) = Some (Some 1)"
proof -
  have a: "live heap4 0" and b: "kind (theFile heap4 0) = DirectoryKind"
    and o: "0 < owners (theFile heap4 0)" and c: "live heap4 2" and d: "lockable 7 heap4 2"
    by code_simp+
  have e: "getParent heap4 2 = Some 1" by code_simp
  have f: "setEntry 7 0 ''a'' (Some 2) heap4 = Inr heap5" by code_simp
  have g: "entries_find ''a'' (entries (theFile heap5 0)) = Some (Some 2)" by code_simp
  have i: "getParent heap5 2 = Some 0" by code_simp
  have j: "getParent heap1 1 = Some 0" by code_simp
  have k: "entries_find ''b'' (entries (theFile heap1 0)) = None" by code_simp
  have l: "setEntry 7 0 ''b'' (Some 1) heap1 = Inl (AssertionFailed, heap6)" by code_simp
  have m: "entries_find ''b'' (entries (theFile heap6 0)) = Some (Some 1)" by code_simp
  from a b o c d e f g i j k l m show ?thesis by blast
qed

text \<open>
  C2, as stated, fails: in \<open>heap1\<close> the invariant holds, \<open>setEntry\<close> of another file
  under the name that is taken returns, and the file it displaces, which is still alive
  because it has another owner, keeps its parent while no directory holds it any more.
\<close>

theorem I1_displaced_counterexample:
  "I1 heap1 \<and> setEntry 7 0 ''a'' (Some 2) heap1 = Inr heap2
   \<and> getParent heap2 1 = Some 0 \<and> holders (files heap2) 1 = [] \<and> \<not> I1 heap2"
proof -
  have before: "I1 heap1" by code_simp
  have call: "setEntry 7 0 ''a'' (Some 2) heap1 = Inr heap2" by code_simp
  have stale: "getParent heap2 1 = Some 0" by code_simp
  have unheld: "holders (files heap2) 1 = []" by code_simp
  have after: "\<not> I1 heap2" by code_simp
  from before call stale unheld after show ?thesis by blast
qed

text \<open>
  C2, amended. The invariant in the form \<open>linked\<close> (a node with no parent is held by
  no entry, a node with a parent by exactly one entry, of that parent), which gives I1 as
  worded, is kept by every \<open>unlinkEntry\<close> that returns and by every \<open>setEntry\<close> that
  returns and whose name is not taken by another child.
\<close>

theorem linked_preserved:
  assumes inv: "linked s"
  shows "(setEntry t h n p s = Inr s'
            \<and> (\<forall>x. entries_find n (entries (theFile s h)) = Some (Some x) \<longrightarrow> p = Some x)
          \<longrightarrow> linked s' \<and> I1 s')
       \<and> (unlinkEntry t h n s = Inr s' \<longrightarrow> linked s' \<and> I1 s')"
proof -
  have first: "linked s' \<and> I1 s'" if a: "setEntry t h n p s = Inr s'
            \<and> (\<forall>x. entries_find n (entries (theFile s h)) = Some (Some x) \<longrightarrow> p = Some x)"
  proof -
    from a have run: "setEntry t h n p s = Inr s'"
      and free: "\<forall>x. entries_find n (entries (theFile s h)) = Some (Some x) \<longrightarrow> p = Some x"
      by simp_all
    from setEntry_free [OF run free] obtain c where p: "p = Some c" and c: "live s c"
      and h: "live s h" and dir: "kind (theFile s h) = DirectoryKind"
      and orphan: "getParent s c = None" and fs: "files s' = link_files h n c (files s)"
      by blast
    have dd: "kind (files s ! h) = DirectoryKind" using dir by (simp add: theFile_def)
    have ff: "x = c" if "entries_find n (entries (files s ! h)) = Some (Some x)" for x
      using free p that by (simp add: theFile_def)
    have "linked s'"
      using inv h dd c orphan ff fs by (rule linked_link_files)
    then show "linked s' \<and> I1 s'" by (simp add: linked_I1)
  qed
  have second: "linked s' \<and> I1 s'" if a: "unlinkEntry t h n s = Inr s'"
  proof -
    from unlinkEntry_Inr [OF a] obtain c where h: "live s h" and dir: "kind (theFile s h) = DirectoryKind"
      and n: "entries_find n (entries (theFile s h)) = Some (Some c)"
      and c: "live s c" and fs: "files s' = unlink_files h n c (files s)"
      by blast
    have dd: "kind (files s ! h) = DirectoryKind" using dir by (simp add: theFile_def)
    have nn: "entries_find n (entries (files s ! h)) = Some (Some c)" using n by (simp add: theFile_def)
    have "linked s'"
      using inv h dd c nn fs by (rule linked_unlink_files)
    then show "linked s' \<and> I1 s'" by (simp add: linked_I1)
  qed
  from first second show ?thesis by blast
qed

theorem linked_preserved_witness:
  "linked heap1
   \<and> (\<exists>s'. setEntry 7 0 ''b'' (Some 2) heap1 = Inr s'
          \<and> entries_find ''b'' (entries (theFile heap1 0)) = None \<and> linked s' \<and> I1 s')
   \<and> (\<exists>s'. unlinkEntry 7 0 ''a'' heap1 = Inr s' \<and> linked s' \<and> I1 s')"
proof -
  have inv: "linked heap1" by code_simp
  have a: "setEntry 7 0 ''b'' (Some 2) heap1 = Inr (projr (setEntry 7 0 ''b'' (Some 2) heap1))"
    by code_simp
  have b: "entries_find ''b'' (entries (theFile heap1 0)) = None" by code_simp
  have c: "unlinkEntry 7 0 ''a'' heap1 = Inr (projr (unlinkEntry 7 0 ''a'' heap1))"
    by code_simp
  from linked_preserved [OF inv, of 7 0 "''b''" "Some 2" "projr (setEntry 7 0 ''b'' (Some 2) heap1)"] a b
  have "linked (projr (setEntry 7 0 ''b'' (Some 2) heap1)) \<and> I1 (projr (setEntry 7 0 ''b'' (Some 2) heap1))"
    by simp
  moreover
  from linked_preserved [OF inv, of 7 0 "''a''" "Some 2" "projr (unlinkEntry 7 0 ''a'' heap1)"] c
  have "linked (projr (unlinkEntry 7 0 ''a'' heap1)) \<and> I1 (projr (unlinkEntry 7 0 ''a'' heap1))"
    by simp
  ultimately show ?thesis using inv a b c by metis
qed

subsection \<open>The size of a directory\<close>

text \<open>
  C7. The size query on the handle of a directory is 4096 in every arena, whatever the
  entry map of the directory holds, and after any sequence of \<open>setEntry\<close> and
  \<open>unlinkEntry\<close> calls that return it still is, as long as the directory is alive: and
  alive it is when something outside the entry maps owns it, as the handle of the query
  does.
\<close>

theorem getSize_directory:
  assumes "live s d" and "kind (theFile s d) = DirectoryKind" and "apply_ops xs s = Inr s'"
  shows "getSize backendSize s d = Inr 4096
     \<and> (0 < owners (theFile s d) \<longrightarrow> live s' d \<and> getSize backendSize s' d = Inr 4096)
     \<and> (live s' d \<longrightarrow> getSize backendSize s' d = Inr 4096)
     \<and> unat (4096 :: size_t) = 4096"
proof -
  have first: "getSize backendSize s d = Inr 4096"
    using assms(1,2) by (simp add: getSize_def File_getSize_def)
  from assms(1) have dl: "d < length (files s)" and alive: "\<not> destroyed (files s ! d)"
    by (simp_all add: live_def)
  from kept_apply_ops [OF assms(3)] dl
  have len: "length (files s') = length (files s)"
    and k: "kind (files s' ! d) = kind (files s ! d)"
    and o: "0 < owners (files s ! d) \<longrightarrow> destroyed (files s' ! d) = destroyed (files s ! d)"
    by (simp_all add: kept_def)
  have size: "getSize backendSize s' d = Inr 4096" if "live s' d"
    using that k assms(2) by (simp add: getSize_def File_getSize_def theFile_def)
  have stays: "live s' d" if "0 < owners (theFile s d)"
    using that o dl alive len by (simp add: live_def theFile_def)
  from first size stays show ?thesis by simp
qed

theorem getSize_directory_witness:
  "live heap0 0 \<and> kind (theFile heap0 0) = DirectoryKind \<and> 0 < owners (theFile heap0 0)
   \<and> apply_ops [SetEntry 7 0 ''a'' (Some 1), SetEntry 7 0 ''b'' (Some 2), UnlinkEntry 7 0 ''a''] heap0
       = Inr (projr (apply_ops [SetEntry 7 0 ''a'' (Some 1), SetEntry 7 0 ''b'' (Some 2), UnlinkEntry 7 0 ''a''] heap0))
   \<and> getNumEntries heap0 0 = Inr 0
   \<and> getNumEntries (projr (apply_ops [SetEntry 7 0 ''a'' (Some 1), SetEntry 7 0 ''b'' (Some 2), UnlinkEntry 7 0 ''a''] heap0)) 0 = Inr 1
   \<and> getSize (\<lambda>f. 0) heap0 0 = Inr 4096
   \<and> getSize (\<lambda>f. 0) (projr (apply_ops [SetEntry 7 0 ''a'' (Some 1), SetEntry 7 0 ''b'' (Some 2), UnlinkEntry 7 0 ''a''] heap0)) 0 = Inr 4096"
proof -
  let ?xs = "[SetEntry 7 0 ''a'' (Some 1), SetEntry 7 0 ''b'' (Some 2), UnlinkEntry 7 0 ''a'']"
  have a: "live heap0 0" and b: "kind (theFile heap0 0) = DirectoryKind"
    and o: "0 < owners (theFile heap0 0)" by code_simp+
  have c: "apply_ops ?xs heap0 = Inr (projr (apply_ops ?xs heap0))" by code_simp
  have d: "getNumEntries heap0 0 = Inr 0" by code_simp
  have e: "getNumEntries (projr (apply_ops ?xs heap0)) 0 = Inr 1" by code_simp
  from getSize_directory [OF a b c, of "\<lambda>f. 0"] a b o c d e show ?thesis by simp
qed

subsection \<open>The name of a child\<close>

text \<open>
  C10. On the handle of a directory, \<open>getName\<close> always returns, and takes no lock
  (it does not touch the arena): when some name maps to the target it returns such a
  name, the least of them in the order of \<^verbatim>\<open>std::string\<close>; when none does it returns
  the empty string.
\<close>

theorem getName_result:
  assumes h: "live s h" and dir: "kind (theFile s h) = DirectoryKind"
    and ord: "ordered (entries (theFile s h))"
  shows "\<exists>r. getName s h target = Inr r
     \<and> ((\<exists>n. entries_find n (entries (theFile s h)) = Some target) \<longrightarrow>
          entries_find r (entries (theFile s h)) = Some target
          \<and> (\<forall>n. entries_find n (entries (theFile s h)) = Some target \<longrightarrow> r \<le> n))
     \<and> ((\<forall>n. entries_find n (entries (theFile s h)) \<noteq> Some target) \<longrightarrow> r = '''')"
proof -
  let ?es = "entries (theFile s h)"
  have run: "getName s h target = Inr (getName_loop target ?es)"
    using h dir by (simp add: getName_def getDir_def)
  have "getName_loop target ?es = ''''" if "\<forall>n. entries_find n ?es \<noteq> Some target"
  proof (rule getName_loop_missing, rule ballI)
    fix e assume "e \<in> set ?es"
    then have "entries_find (fst e) ?es = Some (snd e)"
      using mem_find [OF ord, of "fst e" "snd e"] by simp
    with that show "snd e \<noteq> target" by auto
  qed
  with run getName_loop_found [OF ord] show ?thesis by blast
qed

theorem getName_result_witness:
  "live heap3 0 \<and> kind (theFile heap3 0) = DirectoryKind \<and> ordered (entries (theFile heap3 0))
   \<and> entries_find ''b'' (entries (theFile heap3 0)) = Some (Some 1)
   \<and> entries_find ''c'' (entries (theFile heap3 0)) = Some (Some 1)
   \<and> getName heap3 0 (Some 1) = Inr ''b''
   \<and> getName heap3 0 (Some 3) = Inr ''''"
proof -
  have a: "live heap3 0" and b: "kind (theFile heap3 0) = DirectoryKind"
    and c: "ordered (entries (theFile heap3 0))" by code_simp+
  have d: "entries_find ''b'' (entries (theFile heap3 0)) = Some (Some 1)"
    and e: "entries_find ''c'' (entries (theFile heap3 0)) = Some (Some 1)" by code_simp+
  have f: "getName heap3 0 (Some 1) = Inr ''b''" and g: "getName heap3 0 (Some 3) = Inr ''''"
    by code_simp+
  from getName_result [OF a b c, of "Some 1"] a b c d e f g show ?thesis by simp
qed

subsection \<open>The precondition of \<open>unlinkEntry\<close>\<close>

text \<open>
  C9. On the handle of a directory whose entries own their nodes: when the name is
  absent, \<^verbatim>\<open>operator[]\<close> inserts a null pointer under it and \<open>unlinkEntry\<close>
  dereferences that, with the null entry in the map; when the name is present, the pointer
  under it is a live child and no null pointer is dereferenced. With a present name the
  call waits if another thread owns the mutex of the child; if not, and the child has
  another owner than the entry, the call returns, the entry erased, the parent of the
  child empty and its mutex as it was. If the entry is the only owner of the child, the
  handle of the call becomes the last one: its destructor destroys the child and then
  unlocks the mutex of what it has destroyed.
\<close>

theorem unlinkEntry_needs_name:
  assumes h: "live s h" and dir: "kind (theFile s h) = DirectoryKind"
    and own: "list_all (\<lambda>e. owning (files s) (snd e)) (entries (theFile s h))"
  shows "(entries_find n (entries (theFile s h)) = None \<longrightarrow>
            entries_subscript n (entries (theFile s h))
              = (entries_assign n None (entries (theFile s h)), None)
            \<and> unlinkEntry t h n s
              = Inl (NullDereference,
                     store h ((theFile s h)\<lparr>entries := entries_assign n None (entries (theFile s h))\<rparr>) s))
       \<and> (entries_find n (entries (theFile s h)) \<noteq> None \<longrightarrow>
            (\<exists>c. entries_find n (entries (theFile s h)) = Some (Some c) \<and> live s c
               \<and> (\<forall>sa. unlinkEntry t h n s \<noteq> Inl (NullDereference, sa))
               \<and> (\<not> lockable t s c \<longrightarrow> unlinkEntry t h n s = Inl (Blocked, s))
               \<and> (lockable t s c \<and> \<not> (owners (theFile s c) = 0 \<and> holders (files s) c = [(h, n)]) \<longrightarrow>
                    (\<exists>s'. unlinkEntry t h n s = Inr s' \<and> live s' c \<and> getParent s' c = None
                       \<and> entries (theFile s' h) = entries_erase n (entries (theFile s h))
                       \<and> mutex (theFile s' c) = mutex (theFile s c)
                       \<and> log s' = log s @ [Lock c, WriteParent c None, EraseEntry h n, Unlock c]))
               \<and> (lockable t s c \<and> owners (theFile s c) = 0 \<and> holders (files s) c = [(h, n)] \<longrightarrow>
                    (\<exists>sa. unlinkEntry t h n s = Inl (UseAfterFree, sa) \<and> \<not> live sa c))))"
proof -
  let ?es = "entries (theFile s h)"
  have absent: "entries_subscript n ?es = (entries_assign n None ?es, None)
      \<and> unlinkEntry t h n s
          = Inl (NullDereference, store h ((theFile s h)\<lparr>entries := entries_assign n None ?es\<rparr>) s)"
    if "entries_find n ?es = None"
    using that unlinkEntry_absent [OF h dir that] by (simp add: subscript_absent)
  have present: "\<exists>c. entries_find n ?es = Some (Some c) \<and> live s c
               \<and> (\<forall>sa. unlinkEntry t h n s \<noteq> Inl (NullDereference, sa))
               \<and> (\<not> lockable t s c \<longrightarrow> unlinkEntry t h n s = Inl (Blocked, s))
               \<and> (lockable t s c \<and> \<not> (owners (theFile s c) = 0 \<and> holders (files s) c = [(h, n)]) \<longrightarrow>
                    (\<exists>s'. unlinkEntry t h n s = Inr s' \<and> live s' c \<and> getParent s' c = None
                       \<and> entries (theFile s' h) = entries_erase n ?es
                       \<and> mutex (theFile s' c) = mutex (theFile s c)
                       \<and> log s' = log s @ [Lock c, WriteParent c None, EraseEntry h n, Unlock c]))
               \<and> (lockable t s c \<and> owners (theFile s c) = 0 \<and> holders (files s) c = [(h, n)] \<longrightarrow>
                    (\<exists>sa. unlinkEntry t h n s = Inl (UseAfterFree, sa) \<and> \<not> live sa c))"
    if "entries_find n ?es \<noteq> None"
  proof -
    from that obtain p where p: "entries_find n ?es = Some p" by blast
    then have "(n, p) \<in> set ?es" by (rule find_mem)
    with own have "owning (files s) p" by (auto simp: list_all_iff)
    then obtain c where pc: "p = Some c" and c: "live s c"
      by (auto simp: owning_live)
    have n: "entries_find n ?es = Some (Some c)" using p pc by simp
    have hl: "h < length (files s)" and cl: "c < length (files s)"
      using h c by (simp_all add: live_def)
    have blocked: "unlinkEntry t h n s = Inl (Blocked, s)" if "\<not> lockable t s c"
      unfolding unlinkEntry_present [OF h dir n] using locked_blocked [OF c that] by simp
    note r = unlinkEntry_run [OF h dir n c, of t]
    have ok: "\<exists>s'. unlinkEntry t h n s = Inr s' \<and> live s' c \<and> getParent s' c = None
                       \<and> entries (theFile s' h) = entries_erase n ?es
                       \<and> mutex (theFile s' c) = mutex (theFile s c)
                       \<and> log s' = log s @ [Lock c, WriteParent c None, EraseEntry h n, Unlock c]"
      if "lockable t s c \<and> \<not> (owners (theFile s c) = 0 \<and> holders (files s) c = [(h, n)])"
    proof -
      from r that obtain s' where run: "unlinkEntry t h n s = Inr s'"
        and fs: "files s' = unlink_files h n c (files s)"
        and lg: "log s' = log s @ [Lock c, WriteParent c None, EraseEntry h n, Unlock c]"
        by blast
      have "live s' c" using c by (simp add: live_unlink [OF fs])
      moreover have "getParent s' c = None"
        using cl by (auto simp: getParent_files fs unlink_files_nth Let_def)
      moreover have "entries (theFile s' h) = entries_erase n ?es"
        using hl by (auto simp: theFile_def fs unlink_files_nth Let_def)
      moreover have "mutex (theFile s' c) = mutex (theFile s c)"
        using cl by (auto simp: theFile_def fs unlink_files_nth Let_def)
      ultimately show ?thesis using run lg by blast
    qed
    have uaf: "\<exists>sa. unlinkEntry t h n s = Inl (UseAfterFree, sa) \<and> \<not> live sa c"
      if "lockable t s c \<and> owners (theFile s c) = 0 \<and> holders (files s) c = [(h, n)]"
      using r that by blast
    have nonull: "unlinkEntry t h n s \<noteq> Inl (NullDereference, sa)" for sa
    proof (cases "lockable t s c")
      case False
      with blocked show ?thesis by simp
    next
      case True
      show ?thesis
      proof (cases "owners (theFile s c) = 0 \<and> holders (files s) c = [(h, n)]")
        case last: True
        with uaf True show ?thesis by auto
      next
        case False
        with ok True show ?thesis by auto
      qed
    qed
    from n c nonull blocked ok uaf show ?thesis by blast
  qed
  from absent present show ?thesis by blast
qed

theorem unlinkEntry_needs_name_witness:
  "live heap1 0 \<and> kind (theFile heap1 0) = DirectoryKind
   \<and> list_all (\<lambda>e. owning (files heap1) (snd e)) (entries (theFile heap1 0))
   \<and> entries_find ''z'' (entries (theFile heap1 0)) = None
   \<and> (\<exists>sa. unlinkEntry 7 0 ''z'' heap1 = Inl (NullDereference, sa)
         \<and> entries (theFile sa 0) = [(''a'', Some 1), (''z'', None)])
   \<and> entries_find ''a'' (entries (theFile heap1 0)) = Some (Some 1)
   \<and> lockable 7 heap1 1 \<and> 0 < owners (theFile heap1 1)
   \<and> (\<exists>s'. unlinkEntry 7 0 ''a'' heap1 = Inr s' \<and> live s' 1 \<and> getParent s' 1 = None
         \<and> entries (theFile s' 0) = [])
   \<and> live heap4 0 \<and> kind (theFile heap4 0) = DirectoryKind
   \<and> list_all (\<lambda>e. owning (files heap4) (snd e)) (entries (theFile heap4 0))
   \<and> entries_find ''a'' (entries (theFile heap4 0)) = Some (Some 1)
   \<and> lockable 7 heap4 1 \<and> owners (theFile heap4 1) = 0 \<and> holders (files heap4) 1 = [(0, ''a'')]
   \<and> (\<exists>sa. unlinkEntry 7 0 ''a'' heap4 = Inl (UseAfterFree, sa) \<and> \<not> live sa 1)"
proof -
  have a: "live heap1 0" and b: "kind (theFile heap1 0) = DirectoryKind"
    and c: "list_all (\<lambda>e. owning (files heap1) (snd e)) (entries (theFile heap1 0))"
    by code_simp+
  have d: "entries_find ''z'' (entries (theFile heap1 0)) = None"
    and e: "entries_find ''a'' (entries (theFile heap1 0)) = Some (Some 1)"
    and f: "lockable 7 heap1 1" and g: "0 < owners (theFile heap1 1)" by code_simp+
  have z: "entries (theFile (store 0 ((theFile heap1 0)\<lparr>entries := entries_assign ''z'' None (entries (theFile heap1 0))\<rparr>) heap1) 0)
      = [(''a'', Some 1), (''z'', None)]" by code_simp
  have er: "entries_erase ''a'' (entries (theFile heap1 0)) = []" by code_simp
  have a4: "live heap4 0" and b4: "kind (theFile heap4 0) = DirectoryKind"
    and c4: "list_all (\<lambda>e. owning (files heap4) (snd e)) (entries (theFile heap4 0))"
    by code_simp+
  have e4: "entries_find ''a'' (entries (theFile heap4 0)) = Some (Some 1)"
    and f4: "lockable 7 heap4 1" and g4: "owners (theFile heap4 1) = 0"
    and h4: "holders (files heap4) 1 = [(0, ''a'')]" by code_simp+
  from unlinkEntry_needs_name [OF a b c, of "''z''" 7] d z
  have first: "\<exists>sa. unlinkEntry 7 0 ''z'' heap1 = Inl (NullDereference, sa)
         \<and> entries (theFile sa 0) = [(''a'', Some 1), (''z'', None)]"
    by simp
  from unlinkEntry_needs_name [OF a b c, of "''a''" 7] e f g er
  have second: "\<exists>s'. unlinkEntry 7 0 ''a'' heap1 = Inr s' \<and> live s' 1 \<and> getParent s' 1 = None
         \<and> entries (theFile s' 0) = []"
    by auto
  from unlinkEntry_needs_name [OF a4 b4 c4, of "''a''" 7] e4 f4 g4 h4
  have third: "\<exists>sa. unlinkEntry 7 0 ''a'' heap4 = Inl (UseAfterFree, sa) \<and> \<not> live sa 1"
    by auto
  from a b c d e f g a4 b4 c4 e4 f4 g4 h4 first second third show ?thesis by blast
qed

subsection \<open>The inode number\<close>

text \<open>
  C8. \<open>getIno\<close> is a function of the address of the node alone, so every call on a
  node gives the same value whatever has happened to the arena; and for pointers of
  \<open>p\<close> bits, with the \<^verbatim>\<open>static_assert\<close> that \<^verbatim>\<open>ino_t\<close> is at least as wide, two nodes
  have the same number only if they are the same node, the number being the address.
\<close>

theorem getIno_unique:
  assumes "p \<le> LENGTH('i::len)" and "a < 2 ^ p" and "b < 2 ^ p"
  shows "((getIno a :: 'i word) = getIno b) = (a = b) \<and> unat (getIno a :: 'i word) = a"
proof -
  have le: "(2::nat) ^ p \<le> 2 ^ LENGTH('i)" using assms(1) by simp
  have a: "a < 2 ^ LENGTH('i)" using assms(2) le by (rule less_le_trans)
  have b: "b < 2 ^ LENGTH('i)" using assms(3) le by (rule less_le_trans)
  have ua: "unat (getIno a :: 'i word) = a" and ub: "unat (getIno b :: 'i word) = b"
    using a b by (simp_all add: getIno_def unat_of_nat)
  then show ?thesis by metis
qed

theorem getIno_unique_witness:
  "(32::nat) \<le> LENGTH(64) \<and> (4096::nat) < 2 ^ 32 \<and> (8192::nat) < 2 ^ 32
   \<and> ((getIno 4096 :: 64 word) = getIno 8192) = ((4096::nat) = 8192)
   \<and> unat (getIno 4096 :: 64 word) = 4096"
proof -
  have a: "(32::nat) \<le> LENGTH(64)" and b: "(4096::nat) < 2 ^ 32" and c: "(8192::nat) < 2 ^ 32"
    by simp_all
  from getIno_unique [OF a b c] a b c show ?thesis by simp
qed

section \<open>Properties of path resolution\<close>

text \<open>
  C6. The empty pathname has no components, and resolving it fails with the
  invalid-argument error, in every arena, from every root and working directory; the
  pathname of the root, which has no component to walk either, resolves to the root.
\<close>

theorem empty_path_invalid:
  "splitPath '''' = []
   \<and> resolve_parent_and_child s root cwd forbidden_ancestor '''' = Inl EINVAL
   \<and> resolve_parent_and_child s root cwd forbidden_ancestor ''/'' = Inr (None, Some root)"
  by (simp add: resolve_parent_and_child_def splitPath_def)

section \<open>Properties of the bridge\<close>

subsection \<open>Every step makes the measure smaller\<close>

lemma sum_wake:
  "sum_list (map (invoker_weight C) (map wake_invoker xs))
     \<le> sum_list (map (invoker_weight C) xs) + 2 * length xs"
  by (induction xs) (auto simp: wake_invoker_def invoker_weight_def split: invoker_pc.splits)

lemma sum_update:
  "i < length xs \<Longrightarrow>
   sum_list (map f (xs[i := x])) + f (xs ! i) = sum_list (map f xs) + (f x :: nat)"
proof (induction xs arbitrary: i)
  case Nil
  then show ?case by simp
next
  case (Cons y ys)
  then show ?case by (cases i) auto
qed

lemma weight_wake_update:
  assumes "i < length xs" and "wake_invoker x = x"
  shows "sum_list (map (invoker_weight C) (map wake_invoker (xs[i := x]))) + invoker_weight C (xs ! i)
     \<le> sum_list (map (invoker_weight C) xs) + invoker_weight C x + 2 * length xs"
proof -
  have "sum_list (map (invoker_weight C) (map wake_invoker (xs[i := x])))
     \<le> sum_list (map (invoker_weight C) (xs[i := x])) + 2 * length xs"
    using sum_wake [of C "xs[i := x]"] by simp
  with sum_update [OF assms(1), of "invoker_weight C" x] show ?thesis by linarith
qed

lemma length_notify [simp]: "length (invokers (notify_all s)) = length (invokers s)"
  by (simp add: notify_all_def)

lemma step_decreases:
  assumes "step t s = Some s'"
  shows "potential s' < potential s \<and> length (invokers s') = length (invokers s)"
proof (cases t)
  case Worker
  with assms have nf: "\<not> failed s" and w: "threadIter s = Some s'"
    by (auto simp: step_def split: if_splits)
  show ?thesis
  proof (cases "worker s")
    case W_Iter
    with w nf show ?thesis
      by (auto simp: threadIter_def potential_def abort_def worker_weight_def Let_def split: if_splits)
  next
    case W_Asleep
    with w show ?thesis by (simp add: threadIter_def)
  next
    case W_Woken
    with w nf show ?thesis
      by (auto simp: threadIter_def potential_def abort_def worker_weight_def Let_def
          split: if_splits option.splits)
  next
    case (W_Running i)
    show ?thesis
    proof (cases "failed s'")
      case True
      with w nf W_Running show ?thesis
        by (auto simp: threadIter_def potential_def abort_def resume_def notify_all_def Let_def split: if_splits)
    next
      case False
      with w W_Running have s': "s' = notify_all (s\<lparr>workCount := workCount s + 1,
            history := Resumed i # history s, worker := W_Iter\<rparr>)"
        by (auto simp: threadIter_def abort_def resume_def Let_def split: if_splits)
      let ?C = "2 * length (invokers s) + 4"
      have "sum_list (map (invoker_weight ?C) (map wake_invoker (invokers s)))
              \<le> sum_list (map (invoker_weight ?C) (invokers s)) + 2 * length (invokers s)"
        by (rule sum_wake)
      then show ?thesis
        using nf W_Running False
        by (simp add: s' potential_def notify_all_def worker_weight_def wake_worker_def Let_def)
    qed
  next
    case W_Exited
    with w show ?thesis by (simp add: threadIter_def)
  qed
next
  case (Invoker i)
  with assms have nf: "\<not> failed s" and w: "invoke i s = Some s'"
    by (auto simp: step_def split: if_splits)
  then have i: "i < length (invokers s)"
    by (auto simp: invoke_def split: if_splits)
  let ?C = "2 * length (invokers s) + 4"
  note upd = sum_update [OF i, of "invoker_weight ?C"]
  show ?thesis
  proof (cases "invokers s ! i")
    case I_Idle
    with w nf i upd [of I_Locked] show ?thesis
      by (auto simp: invoke_def potential_def invoker_weight_def Let_def split: if_splits)
  next
    case I_Locked
    show ?thesis
    proof (cases "state s = Waiting")
      case False
      with I_Locked w nf i upd [of I_WaitReady] show ?thesis
        by (auto simp: invoke_def potential_def invoker_weight_def Let_def split: if_splits)
    next
      case True
      with I_Locked w i have s': "s' = notify_all
                 (s\<lparr>work := Some i, state := WorkAvailable,
                    invokers := (invokers s)[i := I_Sent (workCount s)]\<rparr>)"
        by (simp add: invoke_def)
      have "wake_invoker (I_Sent (workCount s)) = I_Sent (workCount s)"
        by (simp add: wake_invoker_def)
      from weight_wake_update [OF i this, of ?C]
      have sum: "sum_list (map (invoker_weight ?C) (map wake_invoker ((invokers s)[i := I_Sent (workCount s)])))
            + (2 * ?C + 1) \<le> sum_list (map (invoker_weight ?C) (invokers s)) + 1 + 2 * length (invokers s)"
        by (simp add: I_Locked invoker_weight_def)
      have ww: "worker_weight ?C WorkAvailable (wake_worker (worker s))
                  \<le> worker_weight ?C Waiting (worker s) + ?C + 2"
        by (cases "worker s") (simp_all add: worker_weight_def wake_worker_def)
      show ?thesis
        using nf True sum ww by (simp add: s' potential_def notify_all_def Let_def)
    qed
  next
    case I_WaitReady
    with w i show ?thesis by (simp add: invoke_def)
  next
    case I_WokenReady
    with w nf i upd [of I_Locked] show ?thesis
      by (auto simp: invoke_def potential_def invoker_weight_def Let_def split: if_splits)
  next
    case (I_Sent workID)
    with w nf i upd [of I_Done] upd [of "I_WaitDone workID"] show ?thesis
      by (auto simp: invoke_def potential_def invoker_weight_def Let_def split: if_splits)
  next
    case (I_WaitDone workID)
    with w i show ?thesis by (simp add: invoke_def)
  next
    case (I_WokenDone workID)
    with w nf i upd [of "I_Sent workID"] show ?thesis
      by (auto simp: invoke_def potential_def invoker_weight_def Let_def split: if_splits)
  next
    case I_Done
    with w i show ?thesis by (simp add: invoke_def)
  qed
qed

subsection \<open>The invariant holds in every execution\<close>

lemma inv_init: "K < 2 ^ 64 \<Longrightarrow> bridge_inv (init K)"
  by (auto simp: bridge_inv_def inv_basic_def inv_lock_def inv_ready_def inv_waitdone_def
      inv_sent_def inv_done_def inv_hist_def inv_count_def
      init_def holds_lock_w_def holds_lock_i_def outstanding_def
      unsent_def sum_list_replicate)

lemma unsent_update:
  "i < length xs \<Longrightarrow> unsent pc = unsent (xs ! i) \<Longrightarrow>
   sum_list (map unsent (xs[i := pc])) = sum_list (map unsent xs)"
  using sum_update [of i xs unsent pc] by simp

lemma inv_local:
  assumes inv: "bridge_inv s" and i: "i < length (invokers s)"
    and lock: "inv_lock (s\<lparr>holder := h', invokers := (invokers s)[i := pc']\<rparr>)"
    and count: "unsent pc' = unsent (invokers s ! i)"
    and ready: "pc' = I_WaitReady \<Longrightarrow>
        state s = WorkAvailable \<and> (worker s = W_Woken \<or> (\<exists>j. worker s = W_Running j))"
    and waitdone: "\<And>workID. pc' = I_WaitDone workID \<Longrightarrow> cur s i \<and> workCount s = workID"
    and sent: "\<And>workID. pc' = I_Sent workID \<or> pc' = I_WokenDone workID \<Longrightarrow>
        cur s i \<and> workCount s = workID \<or> Resumed i \<in> set (history s) \<and> workID < workCount s"
    and fin: "pc' = I_Done \<Longrightarrow> Resumed i \<in> set (history s)"
  shows "bridge_inv (s\<lparr>holder := h', invokers := (invokers s)[i := pc']\<rparr>)"
proof -
  let ?s' = "s\<lparr>holder := h', invokers := (invokers s)[i := pc']\<rparr>"
  from inv have b: "inv_basic s" and r: "inv_ready s" and w: "inv_waitdone s"
    and se: "inv_sent s" and d: "inv_done s" and h: "inv_hist s" and c: "inv_count s"
    by (simp_all add: bridge_inv_def)
  have "inv_basic ?s'" using b by (simp add: inv_basic_def)
  moreover have "inv_ready ?s'"
    using r i ready by (auto simp: inv_ready_def nth_list_update)
  moreover have "inv_waitdone ?s'"
    using w i waitdone by (auto simp: inv_waitdone_def nth_list_update cur_def)
  moreover have "inv_sent ?s'"
    unfolding inv_sent_def
  proof (intro allI impI)
    fix j workID
    assume j: "j < length (invokers ?s')"
      and pc: "invokers ?s' ! j = I_Sent workID \<or> invokers ?s' ! j = I_WokenDone workID"
    show "cur ?s' j \<and> workCount ?s' = workID \<or> Resumed j \<in> set (history ?s') \<and> workID < workCount ?s'"
    proof (cases "j = i")
      case True
      with pc i sent [of workID] show ?thesis by (simp add: cur_def)
    next
      case False
      with pc j have pc0: "invokers s ! j = I_Sent workID \<or> invokers s ! j = I_WokenDone workID"
        and j0: "j < length (invokers s)" by simp_all
      with se have "cur s j \<and> workCount s = workID
          \<or> Resumed j \<in> set (history s) \<and> workID < workCount s"
        unfolding inv_sent_def by blast
      then show ?thesis by (simp add: cur_def)
    qed
  qed
  moreover have "inv_done ?s'"
    using d i fin by (auto simp: inv_done_def nth_list_update)
  moreover have "inv_hist ?s'"
    using h by (simp add: inv_hist_def)
  moreover have "inv_count ?s'"
    using c count unsent_update [OF i, of pc']
    by (simp add: inv_count_def)
  ultimately show ?thesis using lock by (simp add: bridge_inv_def)
qed

lemma inv_partsD:
  assumes "bridge_inv s"
  shows "inv_basic s" "inv_lock s" "inv_ready s" "inv_waitdone s" "inv_sent s" "inv_done s"
    "inv_hist s" "inv_count s"
  using assms by (simp_all add: bridge_inv_def)

lemma holder_of:
  assumes "inv_lock s" and "i < length (invokers s)"
  shows "holds_lock_i (invokers s ! i) = (holder s = Some (Invoker i))"
  using assms by (simp add: inv_lock_def)

lemma lock_update:
  assumes l: "inv_lock s" and i: "i < length (invokers s)"
    and new: "holds_lock_i pc' = (h' = Some (Invoker i))"
    and mine: "h' = None \<or> h' = Some (Invoker i)"
    and old: "holder s = None \<or> holder s = Some (Invoker i)"
  shows "inv_lock (s\<lparr>holder := h', invokers := (invokers s)[i := pc']\<rparr>)"
  unfolding inv_lock_def
proof (intro conjI allI impI)
  let ?s' = "s\<lparr>holder := h', invokers := (invokers s)[i := pc']\<rparr>"
  show "holds_lock_w (worker ?s') = (holder ?s' = Some Worker)"
    using l mine old by (auto simp: inv_lock_def)
  show "j < length (invokers ?s')" if "holder ?s' = Some (Invoker j)" for j
    using that mine i by auto
  show "holds_lock_i (invokers ?s' ! j) = (holder ?s' = Some (Invoker j))"
    if "j < length (invokers ?s')" for j
  proof (cases "j = i")
    case True
    with i new show ?thesis by simp
  next
    case False
    with that have "holds_lock_i (invokers s ! j) = (holder s = Some (Invoker j))"
      using l by (simp add: inv_lock_def)
    with False old mine show ?thesis by auto
  qed
qed

lemma invoke_inv:
  assumes inv: "bridge_inv s" and run: "invoke i s = Some s'" and nosub: "invokers s ! i \<noteq> I_Locked \<or> state s \<noteq> Waiting"
  shows "bridge_inv s'"
proof -
  from run have i: "i < length (invokers s)"
    by (auto simp: invoke_def split: if_splits)
  note p = inv_partsD [OF inv]
  note hold = holder_of [OF p(2) i]
  show ?thesis
  proof (cases "invokers s ! i")
    case I_Idle
    with run i have free: "holder s = None"
      and s': "s' = s\<lparr>holder := Some (Invoker i), invokers := (invokers s)[i := I_Locked]\<rparr>"
      by (auto simp: invoke_def split: if_splits)
    show ?thesis unfolding s'
      by (rule inv_local [OF inv i lock_update [OF p(2) i]])
         (simp_all add: holds_lock_i_def free unsent_def I_Idle)
  next
    case I_Locked
    with nosub have st: "state s \<noteq> Waiting" by simp
    with run i I_Locked
    have s': "s' = s\<lparr>holder := None, invokers := (invokers s)[i := I_WaitReady]\<rparr>"
      by (auto simp: invoke_def split: if_splits)
    from hold I_Locked have mine: "holder s = Some (Invoker i)" by (simp add: holds_lock_i_def)
    with p(2) have "\<not> holds_lock_w (worker s)" by (simp add: inv_lock_def)
    with p(1) st have "state s = WorkAvailable \<and> worker s = W_Woken"
      by (cases "worker s") (auto simp: inv_basic_def holds_lock_w_def)
    then show ?thesis unfolding s'
      by (intro inv_local [OF inv i lock_update [OF p(2) i]])
         (simp_all add: holds_lock_i_def mine unsent_def I_Locked)
  next
    case I_WaitReady
    with run i show ?thesis by (simp add: invoke_def)
  next
    case I_WokenReady
    with run i have free: "holder s = None"
      and s': "s' = s\<lparr>holder := Some (Invoker i), invokers := (invokers s)[i := I_Locked]\<rparr>"
      by (auto simp: invoke_def split: if_splits)
    show ?thesis unfolding s'
      by (rule inv_local [OF inv i lock_update [OF p(2) i]])
         (simp_all add: holds_lock_i_def free unsent_def I_WokenReady)
  next
    case (I_Sent workID)
    from hold I_Sent have mine: "holder s = Some (Invoker i)" by (simp add: holds_lock_i_def)
    from p(5) i I_Sent have P: "cur s i \<and> workCount s = workID
        \<or> Resumed i \<in> set (history s) \<and> workID < workCount s"
      by (simp add: inv_sent_def)
    show ?thesis
    proof (cases "workID < workCount s")
      case True
      with run i I_Sent
      have s': "s' = s\<lparr>holder := None, invokers := (invokers s)[i := I_Done]\<rparr>"
        by (simp add: invoke_def)
      from P True have "Resumed i \<in> set (history s)" by auto
      then show ?thesis unfolding s'
        by (intro inv_local [OF inv i lock_update [OF p(2) i]])
           (simp_all add: holds_lock_i_def mine unsent_def I_Sent)
    next
      case False
      with run i I_Sent
      have s': "s' = s\<lparr>holder := None, invokers := (invokers s)[i := I_WaitDone workID]\<rparr>"
        by (simp add: invoke_def)
      from P False have "cur s i \<and> workCount s = workID" by auto
      then show ?thesis unfolding s'
        by (intro inv_local [OF inv i lock_update [OF p(2) i]])
           (simp_all add: holds_lock_i_def mine unsent_def I_Sent)
    qed
  next
    case (I_WaitDone workID)
    with run i show ?thesis by (simp add: invoke_def)
  next
    case (I_WokenDone workID)
    with run i have free: "holder s = None"
      and s': "s' = s\<lparr>holder := Some (Invoker i), invokers := (invokers s)[i := I_Sent workID]\<rparr>"
      by (auto simp: invoke_def split: if_splits)
    from p(5) i I_WokenDone have P: "cur s i \<and> workCount s = workID
        \<or> Resumed i \<in> set (history s) \<and> workID < workCount s"
      by (simp add: inv_sent_def)
    then show ?thesis unfolding s'
      by (intro inv_local [OF inv i lock_update [OF p(2) i]])
         (simp_all add: holds_lock_i_def free unsent_def I_WokenDone)
  next
    case I_Done
    with run i show ?thesis by (simp add: invoke_def)
  qed
qed

lemma wake_simps [simp]:
  "wake_invoker pc \<noteq> I_WaitReady"
  "wake_invoker pc \<noteq> I_WaitDone workID"
  "(wake_invoker pc = I_Sent workID) = (pc = I_Sent workID)"
  "(wake_invoker pc = I_WokenDone workID) = (pc = I_WokenDone workID \<or> pc = I_WaitDone workID)"
  "(wake_invoker pc = I_Done) = (pc = I_Done)"
  "(wake_invoker pc = I_Locked) = (pc = I_Locked)"
  "holds_lock_i (wake_invoker pc) = holds_lock_i pc"
  "unsent (wake_invoker pc) = unsent pc"
  by (cases pc; simp add: wake_invoker_def holds_lock_i_def unsent_def)+

lemma unsent_wake_comp [simp]: "unsent \<circ> wake_invoker = unsent"
  by (rule ext) simp

lemma sum_unsent_wake [simp]:
  "sum_list (map unsent (map wake_invoker xs)) = sum_list (map unsent xs)"
  by (induction xs) simp_all

lemma word_succ:
  fixes x :: "64 word"
  assumes "unat x + 1 < 2 ^ 64"
  shows "x + 1 \<noteq> 0" and "unat (x + 1) = unat x + 1" and "x < x + 1"
    and "\<And>y. y < x \<Longrightarrow> y < x + 1"
proof -
  have u: "unat (x + 1) = unat x + 1"
    using assms unat_add_lem [of x 1] by simp
  then show "unat (x + 1) = unat x + 1" .
  from u show "x + 1 \<noteq> 0" by (metis add_is_0 unat_0 zero_neq_one)
  from u show "x < x + 1" by (simp add: word_less_nat_alt)
  from u show "y < x \<Longrightarrow> y < x + 1" for y by (simp add: word_less_nat_alt)
qed

lemma inv_sentD:
  assumes "inv_sent s" and "i < length (invokers s)"
    and "invokers s ! i = I_Sent workID \<or> invokers s ! i = I_WokenDone workID"
  shows "cur s i \<and> workCount s = workID \<or> Resumed i \<in> set (history s) \<and> workID < workCount s"
  using assms unfolding inv_sent_def by blast

lemma inv_waitdoneD:
  assumes "inv_waitdone s" and "i < length (invokers s)" and "invokers s ! i = I_WaitDone workID"
  shows "cur s i \<and> workCount s = workID"
  using assms unfolding inv_waitdone_def by blast

lemma inv_readyD:
  assumes "inv_ready s" and "i < length (invokers s)" and "invokers s ! i = I_WaitReady"
  shows "state s = WorkAvailable \<and> (worker s = W_Woken \<or> (\<exists>j. worker s = W_Running j))"
  using assms unfolding inv_ready_def by blast

lemma inv_doneD:
  assumes "inv_done s" and "i < length (invokers s)" and "invokers s ! i = I_Done"
  shows "Resumed i \<in> set (history s)"
  using assms unfolding inv_done_def by blast

lemma submit_inv:
  assumes inv: "bridge_inv s" and i: "i < length (invokers s)"
    and pc: "invokers s ! i = I_Locked" and st: "state s = Waiting"
  shows "bridge_inv (notify_all (s\<lparr>work := Some i, state := WorkAvailable,
            invokers := (invokers s)[i := I_Sent (workCount s)]\<rparr>))"
proof -
  define s' where "s' = notify_all (s\<lparr>work := Some i, state := WorkAvailable,
            invokers := (invokers s)[i := I_Sent (workCount s)]\<rparr>)"
  note p = inv_partsD [OF inv]
  from holder_of [OF p(2) i] pc have mine: "holder s = Some (Invoker i)"
    by (simp add: holds_lock_i_def)
  with p(2) have "\<not> holds_lock_w (worker s)" by (simp add: inv_lock_def)
  with p(1) have w: "worker s = W_Asleep \<or> worker s = W_Woken"
    by (cases "worker s") (auto simp: inv_basic_def holds_lock_w_def)
  then have w': "worker s' = W_Woken" by (auto simp: s'_def notify_all_def wake_worker_def)
  have len: "length (invokers s') = length (invokers s)" by (simp add: s'_def notify_all_def)
  have nth: "invokers s' ! j = (if j = i then I_Sent (workCount s) else wake_invoker (invokers s ! j))"
    if "j < length (invokers s)" for j
  proof (cases "j = i")
    case True
    with that show ?thesis by (simp add: s'_def notify_all_def wake_invoker_def)
  next
    case False
    with that show ?thesis by (simp add: s'_def notify_all_def)
  qed
  have st': "state s' = WorkAvailable" and wk': "work s' = Some i"
    and hd': "holder s' = holder s" and hist': "history s' = history s"
    and wc': "workCount s' = workCount s" and f': "failed s' = failed s"
    by (simp_all add: s'_def notify_all_def)
  have nowait: "invokers s ! j \<noteq> I_WaitDone workID" if "j < length (invokers s)" for j workID
    using inv_waitdoneD [OF p(4) that] st by (auto simp: cur_def)
  have "inv_basic s'"
    using p(1) by (simp add: inv_basic_def len st' wk' w' f')
  moreover have "inv_lock s'"
    unfolding inv_lock_def len hd' w'
  proof (intro conjI allI impI)
    show "holds_lock_w W_Woken = (holder s = Some Worker)"
      using mine by (simp add: holds_lock_w_def)
    show "j < length (invokers s)" if "holder s = Some (Invoker j)" for j
      using that mine i by simp
    show "holds_lock_i (invokers s' ! j) = (holder s = Some (Invoker j))"
      if "j < length (invokers s)" for j
    proof (cases "j = i")
      case True
      with that mine show ?thesis by (simp add: nth holds_lock_i_def)
    next
      case False
      with that holder_of [OF p(2) that] show ?thesis by (simp add: nth)
    qed
  qed
  moreover have "inv_ready s'"
    by (auto simp: inv_ready_def len nth split: if_splits)
  moreover have "inv_waitdone s'"
    by (auto simp: inv_waitdone_def len nth split: if_splits)
  moreover have "inv_sent s'"
    unfolding inv_sent_def len
  proof (intro allI impI)
    fix j workID
    assume j: "j < length (invokers s)"
      and pcj: "invokers s' ! j = I_Sent workID \<or> invokers s' ! j = I_WokenDone workID"
    show "cur s' j \<and> workCount s' = workID
          \<or> Resumed j \<in> set (history s') \<and> workID < workCount s'"
    proof (cases "j = i")
      case True
      with pcj j show ?thesis by (simp add: nth cur_def st' wk' w' wc')
    next
      case False
      with pcj j nowait [OF j] have "invokers s ! j = I_Sent workID \<or> invokers s ! j = I_WokenDone workID"
        by (auto simp: nth)
      from inv_sentD [OF p(5) j this] st show ?thesis
        by (auto simp: cur_def hist' wc')
    qed
  qed
  moreover have "inv_done s'"
    using p(6) by (auto simp: inv_done_def len nth hist' split: if_splits)
  moreover have "inv_hist s'"
    using p(7) w by (auto simp: inv_hist_def w' hist')
  moreover have "inv_count s'"
  proof -
    have "sum_list (map unsent ((invokers s)[i := I_Sent (workCount s)])) + 1
          = sum_list (map unsent (invokers s))"
      using sum_update [OF i, of unsent "I_Sent (workCount s)"] pc by (simp add: unsent_def)
    moreover have "outstanding Waiting (worker s) = 0"
      using w by (auto simp: outstanding_def)
    moreover have "sum_list (map unsent (invokers s'))
          = sum_list (map unsent ((invokers s)[i := I_Sent (workCount s)]))"
      by (simp add: s'_def notify_all_def)
    ultimately show ?thesis
      using p(8) st by (simp add: inv_count_def len st' w' wc' outstanding_def)
  qed
  ultimately show ?thesis by (simp add: bridge_inv_def s'_def)
qed

lemma iter_inv:
  assumes inv: "bridge_inv s" and pc: "worker s = W_Iter"
  shows "bridge_inv (s\<lparr>state := Waiting, holder := None, worker := W_Asleep\<rparr>)"
proof -
  define s' where "s' = s\<lparr>state := Waiting, holder := None, worker := W_Asleep\<rparr>"
  note p = inv_partsD [OF inv]
  from p(2) pc have mine: "holder s = Some Worker"
    by (simp add: inv_lock_def holds_lock_w_def)
  have nocur: "\<not> cur s j" for j using pc by (simp add: cur_def)
  have f: "state s' = Waiting" "holder s' = None" "worker s' = W_Asleep"
    "invokers s' = invokers s" "history s' = history s" "workCount s' = workCount s"
    "failed s' = failed s" "work s' = work s"
    by (simp_all add: s'_def)
  have "inv_basic s'" using p(1) by (simp add: inv_basic_def f)
  moreover have "inv_lock s'"
    using p(2) mine by (auto simp: inv_lock_def f holds_lock_w_def)
  moreover have "inv_ready s'"
    unfolding inv_ready_def f
  proof (intro allI impI)
    fix j assume "j < length (invokers s)" and "invokers s ! j = I_WaitReady"
    from inv_readyD [OF p(3) this] pc
    show "Waiting = WorkAvailable \<and> (W_Asleep = W_Woken \<or> (\<exists>j. W_Asleep = W_Running j))"
      by auto
  qed
  moreover have "inv_waitdone s'"
    unfolding inv_waitdone_def f
  proof (intro allI impI)
    fix j workID assume "j < length (invokers s)" and "invokers s ! j = I_WaitDone workID"
    from inv_waitdoneD [OF p(4) this] nocur
    show "cur s' j \<and> workCount s = workID" by simp
  qed
  moreover have "inv_sent s'"
    unfolding inv_sent_def f
  proof (intro allI impI)
    fix j workID assume "j < length (invokers s)"
      and "invokers s ! j = I_Sent workID \<or> invokers s ! j = I_WokenDone workID"
    from inv_sentD [OF p(5) this] nocur
    show "cur s' j \<and> workCount s = workID \<or> Resumed j \<in> set (history s) \<and> workID < workCount s"
      by simp
  qed
  moreover have "inv_done s'" using p(6) by (simp add: inv_done_def f)
  moreover have "inv_hist s'" using p(7) pc by (simp add: inv_hist_def f)
  moreover have "inv_count s'"
    using p(8) pc by (simp add: inv_count_def f outstanding_def)
  ultimately show ?thesis by (simp add: bridge_inv_def s'_def)
qed

lemma start_inv:
  assumes inv: "bridge_inv s" and pc: "worker s = W_Woken" and free: "holder s = None"
    and st: "state s = WorkAvailable" and wk: "work s = Some i"
  shows "bridge_inv (s\<lparr>holder := Some Worker, worker := W_Running i,
            history := Started i # history s\<rparr>)"
proof -
  define s' where "s' = s\<lparr>holder := Some Worker, worker := W_Running i,
            history := Started i # history s\<rparr>"
  note p = inv_partsD [OF inv]
  have f: "state s' = state s" "holder s' = Some Worker" "worker s' = W_Running i"
    "invokers s' = invokers s" "history s' = Started i # history s" "workCount s' = workCount s"
    "failed s' = failed s" "work s' = work s"
    by (simp_all add: s'_def)
  have curs: "cur s' j" if "cur s j" for j
    using that wk by (simp add: cur_def f)
  have "inv_basic s'" using p(1) by (simp add: inv_basic_def f)
  moreover have "inv_lock s'"
    using p(2) free by (auto simp: inv_lock_def f holds_lock_w_def)
  moreover have "inv_ready s'"
    using p(3) st by (auto simp: inv_ready_def f)
  moreover have "inv_waitdone s'"
    unfolding inv_waitdone_def f
  proof (intro allI impI)
    fix j workID assume "j < length (invokers s)" and "invokers s ! j = I_WaitDone workID"
    from inv_waitdoneD [OF p(4) this] curs
    show "cur s' j \<and> workCount s = workID" by simp
  qed
  moreover have "inv_sent s'"
    unfolding inv_sent_def f
  proof (intro allI impI)
    fix j workID assume "j < length (invokers s)"
      and "invokers s ! j = I_Sent workID \<or> invokers s ! j = I_WokenDone workID"
    from inv_sentD [OF p(5) this] curs
    show "cur s' j \<and> workCount s = workID
          \<or> Resumed j \<in> set (Started i # history s) \<and> workID < workCount s"
      by auto
  qed
  moreover have "inv_done s'" using p(6) by (simp add: inv_done_def f)
  moreover have "inv_hist s'" using p(7) pc by (simp add: inv_hist_def f)
  moreover have "inv_count s'"
    using p(8) pc st by (simp add: inv_count_def f outstanding_def)
  ultimately show ?thesis by (simp add: bridge_inv_def s'_def)
qed

lemma sleep_inv:
  assumes inv: "bridge_inv s" and pc: "worker s = W_Woken" and st: "state s = Waiting"
  shows "bridge_inv (s\<lparr>worker := W_Asleep\<rparr>)"
proof -
  define s' where "s' = s\<lparr>worker := W_Asleep\<rparr>"
  note p = inv_partsD [OF inv]
  have nocur: "\<not> cur s j" for j using st by (simp add: cur_def)
  have f: "state s' = state s" "holder s' = holder s" "worker s' = W_Asleep"
    "invokers s' = invokers s" "history s' = history s" "workCount s' = workCount s"
    "failed s' = failed s" "work s' = work s"
    by (simp_all add: s'_def)
  have "inv_basic s'" using p(1) st by (simp add: inv_basic_def f)
  moreover have "inv_lock s'"
    using p(2) pc by (auto simp: inv_lock_def f holds_lock_w_def)
  moreover have "inv_ready s'"
    unfolding inv_ready_def f
  proof (intro allI impI)
    fix j assume "j < length (invokers s)" and "invokers s ! j = I_WaitReady"
    from inv_readyD [OF p(3) this] st
    show "state s = WorkAvailable \<and> (W_Asleep = W_Woken \<or> (\<exists>j. W_Asleep = W_Running j))"
      by auto
  qed
  moreover have "inv_waitdone s'"
    unfolding inv_waitdone_def f
  proof (intro allI impI)
    fix j workID assume "j < length (invokers s)" and "invokers s ! j = I_WaitDone workID"
    from inv_waitdoneD [OF p(4) this] nocur
    show "cur s' j \<and> workCount s = workID" by simp
  qed
  moreover have "inv_sent s'"
    unfolding inv_sent_def f
  proof (intro allI impI)
    fix j workID assume "j < length (invokers s)"
      and "invokers s ! j = I_Sent workID \<or> invokers s ! j = I_WokenDone workID"
    from inv_sentD [OF p(5) this] nocur
    show "cur s' j \<and> workCount s = workID \<or> Resumed j \<in> set (history s) \<and> workID < workCount s"
      by simp
  qed
  moreover have "inv_done s'" using p(6) by (simp add: inv_done_def f)
  moreover have "inv_hist s'" using p(7) pc by (simp add: inv_hist_def f)
  moreover have "inv_count s'"
    using p(8) pc st by (simp add: inv_count_def f outstanding_def)
  ultimately show ?thesis by (simp add: bridge_inv_def s'_def)
qed

lemma resume_inv:
  assumes inv: "bridge_inv s" and pc: "worker s = W_Running i"
  shows "bridge_inv (resume i s)"
proof -
  note p = inv_partsD [OF inv]
  from p(8) pc have "unat (workCount s) + 1 \<le> length (invokers s)"
    by (simp add: inv_count_def outstanding_def)
  with p(1) have room: "unat (workCount s) + 1 < 2 ^ 64" by (simp add: inv_basic_def)
  note ws = word_succ [OF room]
  define s' where "s' = notify_all (s\<lparr>workCount := workCount s + 1,
      history := Resumed i # history s, worker := W_Iter\<rparr>)"
  have run: "resume i s = s'"
    using ws(1) by (simp add: resume_def s'_def Let_def)
  have f: "state s' = state s" "holder s' = holder s" "worker s' = W_Iter"
    "history s' = Resumed i # history s" "workCount s' = workCount s + 1"
    "failed s' = failed s" "work s' = work s"
    by (simp_all add: s'_def notify_all_def wake_worker_def)
  have len: "length (invokers s') = length (invokers s)" by (simp add: s'_def)
  have nth: "invokers s' ! j = wake_invoker (invokers s ! j)" if "j < length (invokers s)" for j
    using that by (simp add: s'_def notify_all_def)
  have curi: "j = i" if "cur s j" for j
    using that pc by (simp add: cur_def)
  from p(7) pc obtain h where hist: "history s = Started i # h" and ph: "paired h"
    by (auto simp: inv_hist_def)
  have "inv_basic s'" using p(1) by (simp add: inv_basic_def f len)
  moreover have "inv_lock s'"
    unfolding inv_lock_def f len
  proof (intro conjI allI impI)
    show "holds_lock_w W_Iter = (holder s = Some Worker)"
      using p(2) pc by (simp add: inv_lock_def holds_lock_w_def)
    show "j < length (invokers s)" if "holder s = Some (Invoker j)" for j
      using that p(2) by (simp add: inv_lock_def)
    show "holds_lock_i (invokers s' ! j) = (holder s = Some (Invoker j))"
      if "j < length (invokers s)" for j
      using that holder_of [OF p(2) that] by (simp add: nth)
  qed
  moreover have "inv_ready s'" by (simp add: inv_ready_def len nth)
  moreover have "inv_waitdone s'" by (simp add: inv_waitdone_def len nth)
  moreover have "inv_sent s'"
    unfolding inv_sent_def len f
  proof (intro allI impI)
    fix j workID
    assume j: "j < length (invokers s)"
      and pcj: "invokers s' ! j = I_Sent workID \<or> invokers s' ! j = I_WokenDone workID"
    have old: "cur s j \<and> workCount s = workID \<or> Resumed j \<in> set (history s) \<and> workID < workCount s"
    proof (cases "invokers s ! j = I_WaitDone workID")
      case True
      from inv_waitdoneD [OF p(4) j True] show ?thesis by simp
    next
      case False
      with pcj j have "invokers s ! j = I_Sent workID \<or> invokers s ! j = I_WokenDone workID"
        by (auto simp: nth)
      from inv_sentD [OF p(5) j this] show ?thesis .
    qed
    then have "Resumed j \<in> set (Resumed i # history s) \<and> workID < workCount s + 1"
      using curi ws(3) ws(4) by auto
    then show "cur s' j \<and> workCount s + 1 = workID
          \<or> Resumed j \<in> set (Resumed i # history s) \<and> workID < workCount s + 1"
      by simp
  qed
  moreover have "inv_done s'"
    using p(6) by (auto simp: inv_done_def len nth f)
  moreover have "inv_hist s'"
    using ph by (simp add: inv_hist_def f hist)
  moreover have "inv_count s'"
  proof -
    have "sum_list (map unsent (invokers s')) = sum_list (map unsent (invokers s))"
      by (simp add: s'_def notify_all_def)
    then show ?thesis
      using p(8) pc ws(2) by (simp add: inv_count_def f len outstanding_def)
  qed
  ultimately show ?thesis by (simp add: bridge_inv_def run)
qed

lemma threadIter_inv:
  assumes inv: "bridge_inv s" and run: "threadIter s = Some s'"
  shows "bridge_inv s'"
proof -
  note p = inv_partsD [OF inv]
  show ?thesis
  proof (cases "worker s")
    case W_Iter
    with p(2) have "holder s = Some Worker" by (simp add: inv_lock_def holds_lock_w_def)
    with run W_Iter have "s' = s\<lparr>state := Waiting, holder := None, worker := W_Asleep\<rparr>"
      by (simp add: threadIter_def)
    with iter_inv [OF inv W_Iter] show ?thesis by simp
  next
    case W_Asleep
    with run show ?thesis by (simp add: threadIter_def)
  next
    case W_Woken
    with run have free: "holder s = None" by (auto simp: threadIter_def split: if_splits)
    from p(1) have st: "state s = Waiting \<or> state s = WorkAvailable" by (simp add: inv_basic_def)
    show ?thesis
    proof (cases "state s = WorkAvailable")
      case True
      with p(1) obtain i where wk: "work s = Some i" by (auto simp: inv_basic_def)
      with run W_Woken free True
      have "s' = s\<lparr>holder := Some Worker, worker := W_Running i, history := Started i # history s\<rparr>"
        by (simp add: threadIter_def)
      with start_inv [OF inv W_Woken free True wk] show ?thesis by simp
    next
      case False
      with st have w: "state s = Waiting" by simp
      with run W_Woken free have "s' = s\<lparr>worker := W_Asleep\<rparr>"
        by (simp add: threadIter_def)
      with sleep_inv [OF inv W_Woken w] show ?thesis by simp
    qed
  next
    case (W_Running i)
    with p(2) have "holder s = Some Worker" by (simp add: inv_lock_def holds_lock_w_def)
    with run W_Running have "s' = resume i s" by (simp add: threadIter_def)
    with resume_inv [OF inv W_Running] show ?thesis by simp
  next
    case W_Exited
    with run show ?thesis by (simp add: threadIter_def)
  qed
qed

lemma spurious_worker_inv:
  assumes inv: "bridge_inv s" and pc: "worker s = W_Asleep"
  shows "bridge_inv (s\<lparr>worker := W_Woken\<rparr>)"
proof -
  define s' where "s' = s\<lparr>worker := W_Woken\<rparr>"
  note p = inv_partsD [OF inv]
  from p(1) pc have st: "state s = Waiting" by (simp add: inv_basic_def)
  have nocur: "\<not> cur s j" for j using st by (simp add: cur_def)
  have f: "state s' = state s" "holder s' = holder s" "worker s' = W_Woken"
    "invokers s' = invokers s" "history s' = history s" "workCount s' = workCount s"
    "failed s' = failed s" "work s' = work s"
    by (simp_all add: s'_def)
  have "inv_basic s'" using p(1) by (simp add: inv_basic_def f)
  moreover have "inv_lock s'"
    using p(2) pc by (auto simp: inv_lock_def f holds_lock_w_def)
  moreover have "inv_ready s'"
    unfolding inv_ready_def f
  proof (intro allI impI)
    fix j assume "j < length (invokers s)" and "invokers s ! j = I_WaitReady"
    from inv_readyD [OF p(3) this] st
    show "state s = WorkAvailable \<and> (W_Woken = W_Woken \<or> (\<exists>j. W_Woken = W_Running j))"
      by auto
  qed
  moreover have "inv_waitdone s'"
    unfolding inv_waitdone_def f
  proof (intro allI impI)
    fix j workID assume "j < length (invokers s)" and "invokers s ! j = I_WaitDone workID"
    from inv_waitdoneD [OF p(4) this] nocur
    show "cur s' j \<and> workCount s = workID" by simp
  qed
  moreover have "inv_sent s'"
    unfolding inv_sent_def f
  proof (intro allI impI)
    fix j workID assume "j < length (invokers s)"
      and "invokers s ! j = I_Sent workID \<or> invokers s ! j = I_WokenDone workID"
    from inv_sentD [OF p(5) this] nocur
    show "cur s' j \<and> workCount s = workID \<or> Resumed j \<in> set (history s) \<and> workID < workCount s"
      by simp
  qed
  moreover have "inv_done s'" using p(6) by (simp add: inv_done_def f)
  moreover have "inv_hist s'" using p(7) pc by (simp add: inv_hist_def f)
  moreover have "inv_count s'"
    using p(8) pc st by (simp add: inv_count_def f outstanding_def)
  ultimately show ?thesis by (simp add: bridge_inv_def s'_def)
qed

lemma spurious_invoker_inv:
  assumes inv: "bridge_inv s" and i: "i < length (invokers s)"
  shows "bridge_inv (s\<lparr>invokers := (invokers s)[i := wake_invoker (invokers s ! i)]\<rparr>)"
proof -
  note p = inv_partsD [OF inv]
  have lock: "inv_lock (s\<lparr>holder := holder s, invokers := (invokers s)[i := wake_invoker (invokers s ! i)]\<rparr>)"
    unfolding inv_lock_def
  proof (intro conjI allI impI)
    let ?s' = "s\<lparr>holder := holder s, invokers := (invokers s)[i := wake_invoker (invokers s ! i)]\<rparr>"
    show "holds_lock_w (worker ?s') = (holder ?s' = Some Worker)"
      using p(2) by (simp add: inv_lock_def)
    show "j < length (invokers ?s')" if "holder ?s' = Some (Invoker j)" for j
      using that p(2) by (simp add: inv_lock_def)
    show "holds_lock_i (invokers ?s' ! j) = (holder ?s' = Some (Invoker j))"
      if "j < length (invokers ?s')" for j
      using that holder_of [OF p(2), of j] i by (cases "j = i") simp_all
  qed
  have "bridge_inv (s\<lparr>holder := holder s, invokers := (invokers s)[i := wake_invoker (invokers s ! i)]\<rparr>)"
  proof (rule inv_local [OF inv i lock])
    show "unsent (wake_invoker (invokers s ! i)) = unsent (invokers s ! i)" by simp
  next
    assume "wake_invoker (invokers s ! i) = I_WaitReady"
    then show "state s = WorkAvailable \<and> (worker s = W_Woken \<or> (\<exists>j. worker s = W_Running j))"
      by simp
  next
    fix workID assume "wake_invoker (invokers s ! i) = I_WaitDone workID"
    then show "cur s i \<and> workCount s = workID" by simp
  next
    fix workID
    assume a: "wake_invoker (invokers s ! i) = I_Sent workID
               \<or> wake_invoker (invokers s ! i) = I_WokenDone workID"
    show "cur s i \<and> workCount s = workID \<or> Resumed i \<in> set (history s) \<and> workID < workCount s"
    proof (cases "invokers s ! i = I_WaitDone workID")
      case True
      from inv_waitdoneD [OF p(4) i True] show ?thesis by simp
    next
      case False
      with a have "invokers s ! i = I_Sent workID \<or> invokers s ! i = I_WokenDone workID" by simp
      from inv_sentD [OF p(5) i this] show ?thesis .
    qed
  next
    assume "wake_invoker (invokers s ! i) = I_Done"
    then have "invokers s ! i = I_Done" by simp
    from inv_doneD [OF p(6) i this] show "Resumed i \<in> set (history s)" .
  qed
  then show ?thesis by simp
qed

lemma exec_inv:
  assumes inv: "bridge_inv s" and run: "exec l s = Some s'"
  shows "bridge_inv s'"
proof (cases l)
  case (Step t)
  with run have st: "step t s = Some s'" by simp
  show ?thesis
  proof (cases t)
    case Worker
    with st have "threadIter s = Some s'" by (simp add: step_def split: if_splits)
    with inv show ?thesis by (rule threadIter_inv)
  next
    case (Invoker i)
    with st have r: "invoke i s = Some s'" by (simp add: step_def split: if_splits)
    then have i: "i < length (invokers s)" by (auto simp: invoke_def split: if_splits)
    show ?thesis
    proof (cases "invokers s ! i = I_Locked \<and> state s = Waiting")
      case True
      with r i have "s' = notify_all (s\<lparr>work := Some i, state := WorkAvailable,
            invokers := (invokers s)[i := I_Sent (workCount s)]\<rparr>)"
        by (simp add: invoke_def)
      with submit_inv [OF inv i] True show ?thesis by simp
    next
      case False
      then have "invokers s ! i \<noteq> I_Locked \<or> state s \<noteq> Waiting" by simp
      with inv r show ?thesis by (rule invoke_inv)
    qed
  qed
next
  case (Spurious t)
  with run have sp: "spurious t s = Some s'" by simp
  show ?thesis
  proof (cases t)
    case Worker
    with sp have "worker s = W_Asleep" and "s' = s\<lparr>worker := W_Woken\<rparr>"
      by (auto simp: spurious_def split: if_splits)
    with spurious_worker_inv [OF inv] show ?thesis by simp
  next
    case (Invoker i)
    with sp have "i < length (invokers s)"
      and "s' = s\<lparr>invokers := (invokers s)[i := wake_invoker (invokers s ! i)]\<rparr>"
      by (auto simp: spurious_def split: if_splits)
    with spurious_invoker_inv [OF inv] show ?thesis by simp
  qed
qed

lemma run_inv: "bridge_inv s \<Longrightarrow> run ls s = Some s' \<Longrightarrow> bridge_inv s'"
proof (induction ls arbitrary: s)
  case Nil
  then show ?case by simp
next
  case (Cons l ls)
  from Cons.prems(2) obtain s1 where one: "exec l s = Some s1" and rest: "run ls s1 = Some s'"
    by (auto split: option.splits)
  from Cons.IH [OF exec_inv [OF Cons.prems(1) one] rest] show ?case .
qed

lemma run_length: "run ls s = Some s' \<Longrightarrow> length (invokers s') = length (invokers s)"
proof (induction ls arbitrary: s)
  case Nil
  then show ?case by simp
next
  case (Cons l ls)
  from Cons.prems obtain s1 where one: "exec l s = Some s1" and rest: "run ls s1 = Some s'"
    by (auto split: option.splits)
  have "length (invokers s1) = length (invokers s)"
  proof (cases l)
    case (Step t)
    with one step_decreases [of t s s1] show ?thesis by simp
  next
    case (Spurious t)
    with one show ?thesis
      by (cases t) (auto simp: spurious_def split: if_splits)
  qed
  with Cons.IH [OF rest] show ?case by simp
qed

subsection \<open>No deadlock, and a bound on the moves\<close>

lemma stuck_all_done:
  assumes inv: "bridge_inv s" and stuck: "\<And>t. step t s = None"
    and i: "i < length (invokers s)"
  shows "invokers s ! i = I_Done"
proof -
  note p = inv_partsD [OF inv]
  from p(1) have nf: "\<not> failed s" by (simp add: inv_basic_def)
  have w: "threadIter s = None" using stuck [of Worker] nf by (simp add: step_def)
  have inv_none: "invoke j s = None" for j using stuck [of "Invoker j"] nf by (simp add: step_def)
  have free: "holder s = None"
  proof (cases "holder s")
    case None
    then show ?thesis .
  next
    case (Some t)
    show ?thesis
    proof (cases t)
      case Worker
      with Some p(2) have "holds_lock_w (worker s)" by (simp add: inv_lock_def)
      with w show ?thesis
        by (cases "worker s") (auto simp: threadIter_def holds_lock_w_def split: if_splits)
    next
      case (Invoker j)
      with Some p(2) have j: "j < length (invokers s)" by (simp add: inv_lock_def)
      with holder_of [OF p(2) j] Some Invoker have "holds_lock_i (invokers s ! j)" by simp
      with inv_none [of j] j show ?thesis
        by (cases "invokers s ! j") (auto simp: invoke_def holds_lock_i_def split: if_splits)
    qed
  qed
  with p(2) have "\<not> holds_lock_w (worker s)" by (simp add: inv_lock_def)
  with w free p(1) have asleep: "worker s = W_Asleep"
    by (cases "worker s") (auto simp: threadIter_def holds_lock_w_def inv_basic_def split: if_splits option.splits)
  with p(1) have st: "state s = Waiting" by (simp add: inv_basic_def)
  show ?thesis
  proof (cases "invokers s ! i")
    case I_WaitReady
    from inv_readyD [OF p(3) i this] st show ?thesis by simp
  next
    case (I_WaitDone workID)
    from inv_waitdoneD [OF p(4) i this] st show ?thesis by (simp add: cur_def)
  next
    case I_Done
    then show ?thesis .
  qed (use inv_none [of i] i free in \<open>auto simp: invoke_def split: if_splits\<close>)
qed

lemma spurious_increases:
  assumes "spurious t s = Some s'"
  shows "potential s' \<le> potential s + 2"
proof (cases t)
  case Worker
  with assms show ?thesis
    by (auto simp: spurious_def potential_def worker_weight_def Let_def split: if_splits)
next
  case (Invoker i)
  with assms have nf: "\<not> failed s" and i: "i < length (invokers s)"
    and s': "s' = s\<lparr>invokers := (invokers s)[i := wake_invoker (invokers s ! i)]\<rparr>"
    by (auto simp: spurious_def split: if_splits)
  let ?C = "2 * length (invokers s) + 4"
  have "invoker_weight ?C (wake_invoker (invokers s ! i)) \<le> invoker_weight ?C (invokers s ! i) + 2"
    by (cases "invokers s ! i") (simp_all add: wake_invoker_def invoker_weight_def)
  with sum_update [OF i, of "invoker_weight ?C" "wake_invoker (invokers s ! i)"] nf
  show ?thesis by (simp add: s' potential_def Let_def)
qed

lemma run_bound:
  "run ls s = Some s' \<Longrightarrow>
   length (filter is_step ls) + potential s' \<le> potential s + 2 * length (filter (\<lambda>l. \<not> is_step l) ls)"
proof (induction ls arbitrary: s)
  case Nil
  then show ?case by simp
next
  case (Cons l ls)
  from Cons.prems obtain s1 where one: "exec l s = Some s1" and rest: "run ls s1 = Some s'"
    by (auto split: option.splits)
  note IH = Cons.IH [OF rest]
  show ?case
  proof (cases l)
    case (Step t)
    with one step_decreases [of t s s1] have "potential s1 < potential s" by simp
    with IH Step show ?thesis by simp
  next
    case (Spurious t)
    with one spurious_increases [of t s s1] have "potential s1 \<le> potential s + 2" by simp
    with IH Spurious show ?thesis by simp
  qed
qed

subsection \<open>The claims on the bridge\<close>

lemma potential_init: "potential (init K) = 4 * K * K + 10 * K + 1"
  by (simp add: potential_def init_def worker_weight_def invoker_weight_def sum_list_replicate
      Let_def algebra_simps)

lemma nth_wake_update:
  "i < length xs \<Longrightarrow>
   map wake_invoker (xs[j := I_Sent w]) ! i = (if i = j then I_Sent w else wake_invoker (xs ! i))"
  by (cases "i = j") (simp_all add: wake_invoker_def)

lemma paired_one: "paired h \<Longrightarrow> one_at_a_time h"
  by (cases h rule: paired.cases) simp_all

lemma can_finish:
  "bridge_inv s \<Longrightarrow>
   \<exists>ls s'. run ls s = Some s' \<and> list_all is_step ls
      \<and> (\<forall>i<length (invokers s). invokers s' ! i = I_Done)"
proof (induction "potential s" arbitrary: s rule: less_induct)
  case less
  show ?case
  proof (cases "\<forall>t. step t s = None")
    case True
    then have "\<forall>i<length (invokers s). invokers s ! i = I_Done"
      using stuck_all_done [OF less.prems] by blast
    then have "run [] s = Some s \<and> list_all is_step [] \<and> (\<forall>i<length (invokers s). invokers s ! i = I_Done)"
      by simp
    then show ?thesis by blast
  next
    case False
    then obtain t s1 where st: "step t s = Some s1" by auto
    then have ex: "exec (Step t) s = Some s1" by simp
    have inv1: "bridge_inv s1" using less.prems ex by (rule exec_inv)
    from step_decreases [OF st] have dec: "potential s1 < potential s"
      and len: "length (invokers s1) = length (invokers s)" by simp_all
    from less.hyps [OF dec inv1] obtain ls s' where r: "run ls s1 = Some s'"
      and a: "list_all is_step ls" and d: "\<forall>i<length (invokers s1). invokers s' ! i = I_Done"
      by blast
    have "run (Step t # ls) s = Some s' \<and> list_all is_step (Step t # ls)
        \<and> (\<forall>i<length (invokers s). invokers s' ! i = I_Done)"
      using st r a d len by simp
    then show ?thesis by blast
  qed
qed

text \<open>
  C3. For every number \<open>K\<close> of invoking threads that \<^verbatim>\<open>uint64_t\<close> can count, and every
  execution from the state the constructor leaves, whatever the order in which the threads
  move and however often they wake spuriously: no assertion fails; an invoker that has
  returned has had the resume callback of its own work fired; the worker begins a work
  item only when the one before has resumed; while an invoker has not returned some thread
  can move, and the moves of the threads can bring every invoker to its return; and the
  number of moves is bounded (by \<open>4 K\<^sup>2 + 10 K + 1\<close>, and two more for each spurious
  wakeup), so that no execution goes on for ever without all \<open>K\<close> calls returning.
\<close>

theorem invoke_returns:
  assumes K: "K < 2 ^ 64" and run: "run ls (init K) = Some s"
  shows "\<not> failed s
     \<and> length (invokers s) = K
     \<and> (\<forall>i<K. invokers s ! i = I_Done \<longrightarrow> Resumed i \<in> set (history s))
     \<and> one_at_a_time (history s)
     \<and> ((\<forall>t. step t s = None) \<longrightarrow> (\<forall>i<K. invokers s ! i = I_Done))
     \<and> (\<exists>ls' s'. run ls' s = Some s' \<and> list_all is_step ls'
            \<and> (\<forall>i<K. invokers s' ! i = I_Done))
     \<and> length (filter is_step ls)
         \<le> 4 * K * K + 10 * K + 1 + 2 * length (filter (\<lambda>l. \<not> is_step l) ls)"
proof -
  have inv: "bridge_inv s" using inv_init [OF K] run by (rule run_inv)
  note p = inv_partsD [OF inv]
  have len: "length (invokers s) = K"
    using run_length [OF run] by (simp add: init_def)
  have "\<not> failed s" using p(1) by (simp add: inv_basic_def)
  moreover have "\<forall>i<K. invokers s ! i = I_Done \<longrightarrow> Resumed i \<in> set (history s)"
    using p(6) by (simp add: inv_done_def len)
  moreover have "one_at_a_time (history s)"
  proof (cases "\<exists>i. worker s = W_Running i")
    case True
    with p(7) show ?thesis by (auto simp: inv_hist_def)
  next
    case False
    with p(7) have "paired (history s)" by (simp add: inv_hist_def)
    then show ?thesis by (rule paired_one)
  qed
  moreover have "(\<forall>t. step t s = None) \<longrightarrow> (\<forall>i<K. invokers s ! i = I_Done)"
    using stuck_all_done [OF inv] by (simp add: len)
  moreover have "\<exists>ls' s'. run ls' s = Some s' \<and> list_all is_step ls'
            \<and> (\<forall>i<K. invokers s' ! i = I_Done)"
    using can_finish [OF inv] by (simp add: len)
  moreover have "length (filter is_step ls)
         \<le> 4 * K * K + 10 * K + 1 + 2 * length (filter (\<lambda>l. \<not> is_step l) ls)"
    using run_bound [OF run] by (simp add: potential_init)
  ultimately show ?thesis using len by simp
qed

theorem invoke_returns_witness:
  "(2::nat) < 2 ^ 64 \<and> run sched2 (init 2) = Some final2
   \<and> \<not> failed final2 \<and> invokers final2 = [I_Done, I_Done]
   \<and> Resumed 0 \<in> set (history final2) \<and> Resumed 1 \<in> set (history final2)
   \<and> one_at_a_time (history final2)
   \<and> step Worker final2 = None \<and> step (Invoker 0) final2 = None \<and> step (Invoker 1) final2 = None
   \<and> length (filter is_step sched2) \<le> 4 * 2 * 2 + 10 * 2 + 1 + 2 * length (filter (\<lambda>l. \<not> is_step l) sched2)"
proof -
  have a: "(2::nat) < 2 ^ 64" by simp
  have b: "run sched2 (init 2) = Some final2" by code_simp
  have c: "invokers final2 = [I_Done, I_Done]" by (simp add: final2_def)
  have d: "step Worker final2 = None \<and> step (Invoker 0) final2 = None \<and> step (Invoker 1) final2 = None"
    by code_simp
  from invoke_returns [OF a b] a b c d show ?thesis by (simp add: final2_def)
qed



text \<open>
  C5. In every move from every state of the bridge, reachable or not: if the move writes
  the work slot, or sets the state to \<^verbatim>\<open>WorkAvailable\<close>, then the state before the move
  was \<^verbatim>\<open>Waiting\<close> and the move is the one in which an invoker, holding the mutex, stores
  its work and captures \<^verbatim>\<open>workCount\<close>. In the states \<^verbatim>\<open>Uninitialized\<close>,
  \<^verbatim>\<open>WorkAvailable\<close> and \<^verbatim>\<open>ShouldExit\<close> no work is stored.
\<close>

theorem submit_only_when_waiting:
  assumes run: "exec l s = Some s'"
    and wr: "work s' \<noteq> work s \<or> state s' = WorkAvailable \<and> state s \<noteq> WorkAvailable"
  shows "state s = Waiting
     \<and> (\<exists>i<length (invokers s). l = Step (Invoker i) \<and> invokers s ! i = I_Locked
            \<and> work s' = Some i \<and> state s' = WorkAvailable
            \<and> invokers s' ! i = I_Sent (workCount s))"
proof (cases l)
  case (Spurious t)
  with run wr show ?thesis
    by (cases t) (auto simp: spurious_def split: if_splits)
next
  case (Step t)
  with run have st: "step t s = Some s'" by simp
  show ?thesis
  proof (cases t)
    case Worker
    with st have r: "threadIter s = Some s'" by (simp add: step_def split: if_splits)
    with wr show ?thesis
      by (cases "worker s")
         (auto simp: threadIter_def resume_def abort_def notify_all_def Let_def
               split: if_splits option.splits)
  next
    case (Invoker j)
    with st have r: "invoke j s = Some s'" by (simp add: step_def split: if_splits)
    then have j: "j < length (invokers s)" by (auto simp: invoke_def split: if_splits)
    show ?thesis
    proof (cases "invokers s ! j")
      case I_Locked
      show ?thesis
      proof (cases "state s = Waiting")
        case True
        with r j I_Locked have s': "s' = notify_all (s\<lparr>work := Some j, state := WorkAvailable,
            invokers := (invokers s)[j := I_Sent (workCount s)]\<rparr>)"
          by (simp add: invoke_def)
        have "invokers s' ! j = I_Sent (workCount s)"
          using j by (simp add: s' notify_all_def nth_wake_update del: nth_map)
        moreover have "work s' = Some j" and "state s' = WorkAvailable"
          by (simp_all add: s' notify_all_def)
        ultimately show ?thesis using True j I_Locked Step Invoker by blast
      next
        case False
        with r j I_Locked wr show ?thesis by (auto simp: invoke_def)
      qed
    qed (use r j wr in \<open>auto simp: invoke_def split: if_splits\<close>)
  qed
qed

theorem submit_only_when_waiting_witness:
  "run [Step (Invoker 0)] (init 2) = Some locked2
   \<and> exec (Step (Invoker 0)) locked2 = Some sent2
   \<and> work sent2 \<noteq> work locked2
   \<and> state locked2 = Waiting \<and> invokers locked2 ! 0 = I_Locked
   \<and> work sent2 = Some 0 \<and> state sent2 = WorkAvailable
   \<and> invokers sent2 ! 0 = I_Sent (workCount locked2)"
proof -
  have a: "run [Step (Invoker 0)] (init 2) = Some locked2" by code_simp
  have b: "exec (Step (Invoker 0)) locked2 = Some sent2" by code_simp
  have c: "work sent2 \<noteq> work locked2" by (simp add: sent2_def locked2_def)
  from submit_only_when_waiting [OF b] a b c show ?thesis
    by (simp add: sent2_def locked2_def)
qed

end
